theory Spec2Isabelle
  imports Complex_Main "HOL-Library.AList"
begin

section \<open>Python values used by the pipeline\<close>

text \<open>
  Python integers are unbounded and are modelled by \<open>int\<close>. Python floats are modelled by
  exact real numbers: rounding, overflow and signed zeros are outside the model. Where the
  code can produce a missing value (NaN), the value is a \<open>real option\<close> with \<open>None\<close> for NaN.
  Exceptions are values of \<open>py_error\<close>; a function that can raise returns \<open>py_error + 'a\<close>.
\<close>

datatype py_error = ValueError | StopIteration | IndexError | RuntimeError

subsection \<open>\<open>str.split(sep)\<close> with a one-character separator\<close>

fun split_acc :: "char \<Rightarrow> string \<Rightarrow> string \<Rightarrow> string list" where
  "split_acc sep acc [] = [rev acc]"
| "split_acc sep acc (c # cs) =
     (if c = sep then rev acc # split_acc sep [] cs else split_acc sep (c # acc) cs)"

definition str_split :: "char \<Rightarrow> string \<Rightarrow> string list" where
  "str_split sep s = split_acc sep [] s"

subsection \<open>\<open>int(s)\<close> on a string, base 10\<close>

text \<open>
  \<open>int\<close> strips surrounding whitespace, takes an optional sign and then decimal digits that
  may be grouped by single underscores; anything else raises \<open>ValueError\<close>. A character is
  its code point below 256. The whitespace that \<open>int\<close> strips there is the ASCII whitespace
  9 to 13 and 32 and the two spaces 133 and 160 above ASCII; the separators 28 to 31 are
  not stripped, and no character above ASCII is a decimal digit. The interpreter's limit on
  the number of digits is not modelled.
\<close>

definition is_py_space :: "char \<Rightarrow> bool" where
  "is_py_space c \<longleftrightarrow> (of_char c :: nat) \<in> {9, 10, 11, 12, 13, 32, 133, 160}"

definition is_digit :: "char \<Rightarrow> bool" where
  "is_digit c \<longleftrightarrow> 48 \<le> (of_char c :: nat) \<and> (of_char c :: nat) \<le> 57"

definition digit_val :: "char \<Rightarrow> nat" where
  "digit_val c = of_char c - 48"

fun py_digits :: "bool \<Rightarrow> nat \<Rightarrow> string \<Rightarrow> nat option" where
  "py_digits prev_digit acc [] = (if prev_digit then Some acc else None)"
| "py_digits prev_digit acc (c # cs) =
     (if is_digit c then py_digits True (10 * acc + digit_val c) cs
      else if c = CHR ''_'' \<and> prev_digit then py_digits False acc cs
      else None)"

definition str_strip :: "string \<Rightarrow> string" where
  "str_strip s = rev (dropWhile is_py_space (rev (dropWhile is_py_space s)))"

definition py_int :: "string \<Rightarrow> py_error + int" where
  "py_int s =
     (case str_strip s of
        [] \<Rightarrow> Inl ValueError
      | c # cs \<Rightarrow>
          (if c = CHR ''-'' then
             (case py_digits False 0 cs of None \<Rightarrow> Inl ValueError | Some n \<Rightarrow> Inr (- int n))
           else if c = CHR ''+'' then
             (case py_digits False 0 cs of None \<Rightarrow> Inl ValueError | Some n \<Rightarrow> Inr (int n))
           else
             (case py_digits False 0 (c # cs) of None \<Rightarrow> Inl ValueError | Some n \<Rightarrow> Inr (int n))))"

text \<open>\<open>list(map(int, fields))\<close>: the first field that does not parse raises.\<close>

fun map_int :: "string list \<Rightarrow> py_error + int list" where
  "map_int [] = Inr []"
| "map_int (f # fs) =
     (case py_int f of
        Inl e \<Rightarrow> Inl e
      | Inr n \<Rightarrow> (case map_int fs of Inl e \<Rightarrow> Inl e | Inr ns \<Rightarrow> Inr (n # ns)))"

subsection \<open>\<open>range(start, stop, step)\<close>\<close>

function range_up :: "int \<Rightarrow> int \<Rightarrow> int \<Rightarrow> int list" where
  "range_up start stop step =
     (if 0 < step \<and> start < stop then start # range_up (start + step) stop step else [])"
  by pat_completeness auto
termination
  by (relation "measure (\<lambda>(start, stop, step). nat (stop - start))") auto

function range_down :: "int \<Rightarrow> int \<Rightarrow> int \<Rightarrow> int list" where
  "range_down start stop step =
     (if step < 0 \<and> stop < start then start # range_down (start + step) stop step else [])"
  by pat_completeness auto
termination
  by (relation "measure (\<lambda>(start, stop, step). nat (start - stop))") auto

declare range_up.simps [simp del]

declare range_down.simps [simp del]

definition py_range :: "int \<Rightarrow> int \<Rightarrow> int \<Rightarrow> py_error + int list" where
  "py_range start stop step =
     (if step = 0 then Inl ValueError
      else if 0 < step then Inr (range_up start stop step)
      else Inr (range_down start stop step))"

section \<open>TagDecoder: \<open>parse_ml_mm\<close>\<close>

text \<open>
  The value stored per offset is the dictionary \<open>{"BrdU": _, "EdU": _, "None": _}\<close>, a record
  here. \<open>mod_positions\<close> is a Python dictionary; it is an association list in insertion
  order with distinct keys, looked up with \<open>map_of\<close>.
\<close>

record probs =
  p_BrdU :: real
  p_EdU :: real
  p_None :: real

type_synonym mod_dict = "(int \<times> probs) list"

definition fresh_entry :: probs where
  "fresh_entry = \<lparr>p_BrdU = 0, p_EdU = 0, p_None = 1\<rparr>"

text \<open>
  The body of the inner loop once \<open>abs_position\<close> has been advanced and a byte has been
  taken from the iterator: create the entry when it is new, then store the probability in
  the channel of the group's kind.
\<close>

definition record_call :: "string \<Rightarrow> int \<Rightarrow> nat \<Rightarrow> mod_dict \<Rightarrow> mod_dict" where
  "record_call mod_type abs_position b mod_positions =
     (let prob = real b / 255;
          d = (if map_of mod_positions abs_position = None
               then mod_positions @ [(abs_position, fresh_entry)]
               else mod_positions)
      in if mod_type = ''N+b?'' then AList.map_entry abs_position (\<lambda>e. e\<lparr>p_BrdU := prob\<rparr>) d
         else if mod_type = ''N+e?'' then AList.map_entry abs_position (\<lambda>e. e\<lparr>p_EdU := prob\<rparr>) d
         else d)"

text \<open>
  \<open>for rel_pos in rel_positions\<close>: the state is the running offset, the rest of the shared
  byte iterator and the dictionary. \<open>next\<close> on the exhausted iterator raises
  \<open>StopIteration\<close>.
\<close>

fun positions_loop ::
  "string \<Rightarrow> int list \<Rightarrow> int \<Rightarrow> nat list \<Rightarrow> mod_dict \<Rightarrow> py_error + (nat list \<times> mod_dict)" where
  "positions_loop mod_type [] abs_position ml_probs mod_positions = Inr (ml_probs, mod_positions)"
| "positions_loop mod_type (rel_pos # rest) abs_position ml_probs mod_positions =
     (case ml_probs of
        [] \<Rightarrow> Inl StopIteration
      | b # ml_rest \<Rightarrow>
          positions_loop mod_type rest (abs_position + rel_pos + 1) ml_rest
            (record_call mod_type (abs_position + rel_pos + 1) b mod_positions))"

text \<open>
  \<open>for entry in mm_entries\<close>: split the entry at commas, parse every field after the first
  as an integer (all of them before the first byte of the group is read), then run the
  inner loop from offset 0.
\<close>

fun entries_loop ::
  "string list \<Rightarrow> nat list \<Rightarrow> mod_dict \<Rightarrow> py_error + (nat list \<times> mod_dict)" where
  "entries_loop [] ml_probs mod_positions = Inr (ml_probs, mod_positions)"
| "entries_loop (entry # rest) ml_probs mod_positions =
     (case str_split CHR '','' entry of
        [] \<Rightarrow> Inl IndexError
      | mod_type # skip_fields \<Rightarrow>
          (case map_int skip_fields of
             Inl e \<Rightarrow> Inl e
           | Inr rel_positions \<Rightarrow>
               (case positions_loop mod_type rel_positions 0 ml_probs mod_positions of
                  Inl e \<Rightarrow> Inl e
                | Inr (ml_rest, d) \<Rightarrow> entries_loop rest ml_rest d)))"

definition mm_entries :: "string \<Rightarrow> string list" where
  "mm_entries mm = filter (\<lambda>entry. entry \<noteq> []) (str_split CHR '';'' mm)"

definition recompute_none :: "mod_dict \<Rightarrow> mod_dict" where
  "recompute_none mod_positions =
     map (\<lambda>(pos, e). (pos, e\<lparr>p_None := max 0 (1 - (p_BrdU e + p_EdU e))\<rparr>)) mod_positions"

definition parse_ml_mm :: "string \<Rightarrow> nat list \<Rightarrow> py_error + mod_dict" where
  "parse_ml_mm mm ml =
     (case entries_loop (mm_entries mm) ml [] of
        Inl e \<Rightarrow> Inl e
      | Inr (ml_rest, d) \<Rightarrow> Inr (recompute_none d))"

subsection \<open>The groups of a tag string and the decoder as the specification words it\<close>

text \<open>
  The front end of the loop alone: kind and skip counts of every entry, in declaration
  order. A tag string is well formed when this succeeds, that is, when every field after
  the kind is an integer literal.
\<close>

definition entry_group :: "string \<Rightarrow> py_error + (string \<times> int list)" where
  "entry_group entry =
     (case str_split CHR '','' entry of
        [] \<Rightarrow> Inl IndexError
      | mod_type # skip_fields \<Rightarrow>
          (case map_int skip_fields of Inl e \<Rightarrow> Inl e | Inr rel_positions \<Rightarrow> Inr (mod_type, rel_positions)))"

fun groups_of :: "string list \<Rightarrow> py_error + (string \<times> int list) list" where
  "groups_of [] = Inr []"
| "groups_of (entry # rest) =
     (case entry_group entry of
        Inl e \<Rightarrow> Inl e
      | Inr g \<Rightarrow> (case groups_of rest of Inl e \<Rightarrow> Inl e | Inr gs \<Rightarrow> Inr (g # gs)))"

definition mm_groups :: "string \<Rightarrow> py_error + (string \<times> int list) list" where
  "mm_groups mm = groups_of (mm_entries mm)"

text \<open>
  The specification's reading of the decoder. Within a group the running offset starts at
  the given value and is advanced by \<open>skip + 1\<close> before each position is recorded; the calls
  of all groups, in declaration order, each with offset 0 at the start of its group, take
  the bytes in order.
\<close>

fun spec_offsets :: "int \<Rightarrow> int list \<Rightarrow> int list" where
  "spec_offsets off [] = []"
| "spec_offsets off (skip # skips) = (off + skip + 1) # spec_offsets (off + skip + 1) skips"

definition spec_group_calls :: "string \<times> int list \<Rightarrow> (string \<times> int) list" where
  "spec_group_calls g = map (Pair (fst g)) (spec_offsets 0 (snd g))"

definition spec_calls :: "(string \<times> int list) list \<Rightarrow> (string \<times> int) list" where
  "spec_calls gs = concat (map spec_group_calls gs)"

definition position_count :: "(string \<times> int list) list \<Rightarrow> nat" where
  "position_count gs = sum_list (map (\<lambda>g. length (snd g)) gs)"

text \<open>
  The probability of a channel at an offset: the byte over 255 of the last call of that
  kind at that offset, 0 when there is none.
\<close>

definition spec_channel :: "string \<Rightarrow> ((string \<times> int) \<times> nat) list \<Rightarrow> int \<Rightarrow> real" where
  "spec_channel kind calls pos =
     (case filter (\<lambda>c. fst (fst c) = kind \<and> snd (fst c) = pos) calls of
        [] \<Rightarrow> 0
      | c # cs \<Rightarrow> real (snd (last (c # cs))) / 255)"

definition spec_recorded :: "((string \<times> int) \<times> nat) list \<Rightarrow> int set" where
  "spec_recorded calls = snd ` fst ` set calls"

definition spec_decode :: "((string \<times> int) \<times> nat) list \<Rightarrow> int \<Rightarrow> probs option" where
  "spec_decode calls pos =
     (if pos \<in> spec_recorded calls
      then Some \<lparr>p_BrdU = spec_channel ''N+b?'' calls pos,
                 p_EdU = spec_channel ''N+e?'' calls pos,
                 p_None = max 0 (1 - spec_channel ''N+b?'' calls pos - spec_channel ''N+e?'' calls pos)\<rparr>
      else None)"

subsection \<open>Tag strings in the standard form\<close>

text \<open>
  The tag string of a list of groups, as the SAM format writes it: each group is its kind
  followed by its skip counts in decimal, each preceded by a comma, and is ended by a
  semicolon. A kind is a non-empty string without comma and semicolon. This is the
  specification's side of the lexing that \<open>split\<close> and \<open>int\<close> do in the code.
\<close>

definition digit_char :: "nat \<Rightarrow> char" where
  "digit_char d = char_of (48 + d)"

function decimal :: "nat \<Rightarrow> string" where
  "decimal n = (if n < 10 then [digit_char n] else decimal (n div 10) @ [digit_char (n mod 10)])"
  by pat_completeness auto
termination
  by (relation "measure id") auto

declare decimal.simps [simp del]

definition entry_string :: "string \<times> nat list \<Rightarrow> string" where
  "entry_string g = fst g @ concat (map (\<lambda>n. CHR '','' # decimal n) (snd g))"

definition tag_string :: "(string \<times> nat list) list \<Rightarrow> string" where
  "tag_string gs = concat (map (\<lambda>g. entry_string g @ '';'') gs)"

definition valid_kind :: "string \<Rightarrow> bool" where
  "valid_kind k \<longleftrightarrow> k \<noteq> [] \<and> CHR '','' \<notin> set k \<and> CHR '';'' \<notin> set k"

definition tag_groups :: "(string \<times> nat list) list \<Rightarrow> (string \<times> int list) list" where
  "tag_groups gs = map (\<lambda>g. (fst g, map int (snd g))) gs"

text \<open>The dictionary after a sequence of calls, each with its byte.\<close>

definition apply_calls :: "mod_dict \<Rightarrow> ((string \<times> int) \<times> nat) list \<Rightarrow> mod_dict" where
  "apply_calls d calls = foldl (\<lambda>d c. record_call (fst (fst c)) (snd (fst c)) (snd c) d) d calls"

definition store_prob :: "string \<Rightarrow> nat \<Rightarrow> probs \<Rightarrow> probs" where
  "store_prob mod_type b e =
     (if mod_type = ''N+b?'' then e\<lparr>p_BrdU := real b / 255\<rparr>
      else if mod_type = ''N+e?'' then e\<lparr>p_EdU := real b / 255\<rparr>
      else e)"

section \<open>WindowAggregator: \<open>compute_sliding_windows\<close>\<close>

text \<open>A window is the tuple \<open>(window_start, window_end, brdu_freq, edu_freq)\<close>.\<close>

type_synonym window = "int \<times> int \<times> real \<times> real"

text \<open>
  The inner loop over \<open>range(window_start, window_end)\<close>: the sums of the two channels and
  the count of the positions that have an entry.
\<close>

definition window_sums :: "mod_dict \<Rightarrow> int \<Rightarrow> int \<Rightarrow> real \<times> real \<times> nat" where
  "window_sums mod_positions window_start window_end =
     foldl (\<lambda>(brdu_sum, edu_sum, t_count) pos.
              (case map_of mod_positions pos of
                 None \<Rightarrow> (brdu_sum, edu_sum, t_count)
               | Some e \<Rightarrow> (brdu_sum + p_BrdU e, edu_sum + p_EdU e, t_count + 1)))
           (0, 0, 0) (range_up window_start window_end 1)"

definition window_at :: "mod_dict \<Rightarrow> int \<Rightarrow> int \<Rightarrow> window" where
  "window_at mod_positions window_size window_start =
     (let window_end = window_start + window_size;
          (brdu_sum, edu_sum, t_count) = window_sums mod_positions window_start window_end
      in if 0 < t_count
         then (window_start, window_end, brdu_sum / real t_count, edu_sum / real t_count)
         else (window_start, window_end, 0, 0))"

definition compute_sliding_windows :: "mod_dict \<Rightarrow> int \<Rightarrow> int \<Rightarrow> py_error + window list" where
  "compute_sliding_windows mod_positions window_size step_size =
     (let sorted_positions = sort (map fst mod_positions)
      in if sorted_positions = [] then Inr []
         else
           (let min_pos = hd sorted_positions;
                max_pos = last sorted_positions
            in case py_range min_pos (max_pos - window_size + 1) step_size of
                 Inl e \<Rightarrow> Inl e
               | Inr starts \<Rightarrow> Inr (map (window_at mod_positions window_size) starts)))"

section \<open>CoordinateMapper: \<open>convert_relative_to_abs_positions\<close>\<close>

text \<open>
  A genomic window is the tuple \<open>(reference_name, start, end, brdu_freq, edu_freq)\<close>.
  \<open>window_results[0]\<close> on the empty sequence raises \<open>IndexError\<close>.
\<close>

type_synonym genomic_window = "string \<times> int \<times> int \<times> real \<times> real"

definition convert_relative_to_abs_positions ::
  "string \<Rightarrow> int \<Rightarrow> int \<Rightarrow> bool \<Rightarrow> window list \<Rightarrow> py_error + genomic_window list" where
  "convert_relative_to_abs_positions reference_name reference_start reference_end is_reverse
     window_results =
     (let pos_list = map fst window_results
      in case window_results of
           [] \<Rightarrow> Inl IndexError
         | w0 # _ \<Rightarrow>
             (let window_size = fst (snd w0) - fst w0;
                  starts = (if \<not> is_reverse then map (\<lambda>x. reference_start + 1 + x) pos_list
                            else map (\<lambda>x. reference_end - 1 - x) pos_list)
              in Inr (map (\<lambda>(i, x). (reference_name, x, x + window_size,
                                       fst (snd (snd (window_results ! i))),
                                       snd (snd (snd (window_results ! i)))))
                          (enumerate 0 starts))))"

section \<open>The per-read pipeline: \<open>process_read\<close>\<close>

text \<open>
  \<open>read_data\<close> is \<open>None\<close> or the tuple built from the read. The function returns the empty
  list for \<open>None\<close> and the pair of the read's name and its genomic windows otherwise.
\<close>

record read_data =
  rd_reference_name :: string
  rd_reference_start :: int
  rd_reference_end :: int
  rd_is_reverse :: bool
  rd_mm_tag :: string
  rd_ml_tag :: "nat list"
  rd_window_size :: int
  rd_step_size :: int
  rd_read_name :: string

datatype read_result = EmptyResult | ReadWindows string "genomic_window list"

definition process_read :: "read_data option \<Rightarrow> py_error + read_result" where
  "process_read rd_opt =
     (case rd_opt of
        None \<Rightarrow> Inr EmptyResult
      | Some rd \<Rightarrow>
          (case parse_ml_mm (rd_mm_tag rd) (rd_ml_tag rd) of
             Inl e \<Rightarrow> Inl e
           | Inr mod_positions \<Rightarrow>
               (case compute_sliding_windows mod_positions (rd_window_size rd) (rd_step_size rd) of
                  Inl e \<Rightarrow> Inl e
                | Inr window_results \<Rightarrow>
                    (case convert_relative_to_abs_positions (rd_reference_name rd) (rd_reference_start rd)
                            (rd_reference_end rd) (rd_is_reverse rd) window_results of
                       Inl e \<Rightarrow> Inl e
                     | Inr abs_results \<Rightarrow> Inr (ReadWindows (rd_read_name rd) abs_results)))))"

section \<open>Groups of a kind that the decoder does not recognise\<close>

text \<open>
  \<open>parse_ml_mm\<close> stores a probability for the kinds \<open>N+b?\<close> and \<open>N+e?\<close> only. \<open>known_bytes\<close> are
  the bytes of the groups of these two kinds, that is, the byte sequence of the tag string
  without the other groups; \<open>unknown_positions\<close> are the offsets that the other groups
  record.
\<close>

definition known_kind :: "string \<Rightarrow> bool" where
  "known_kind mod_type \<longleftrightarrow> mod_type = ''N+b?'' \<or> mod_type = ''N+e?''"

fun known_bytes :: "(string \<times> nat list) list \<Rightarrow> nat list \<Rightarrow> nat list" where
  "known_bytes [] ml = []"
| "known_bytes (g # gs) ml =
     (if known_kind (fst g) then take (length (snd g)) ml else [])
       @ known_bytes gs (drop (length (snd g)) ml)"

definition unknown_positions :: "(string \<times> nat list) list \<Rightarrow> int set" where
  "unknown_positions gs =
     snd ` set (filter (\<lambda>c. \<not> known_kind (fst c)) (spec_calls (tag_groups gs)))"

section \<open>Arrays and columns: the operations of pandas and scipy that the track scripts use\<close>

text \<open>
  A float column is a list of \<open>real option\<close>, \<open>None\<close> for NaN; coordinates (\<open>start\<close>, \<open>x\<close>) are
  integers. The literals 0.1, 0.01, 0.75, 0.65 and 1.96 of the scripts are the exact
  fractions. \<open>fillna\<close> replaces NaN by the given value.
\<close>

definition fillna :: "real \<Rightarrow> real option list \<Rightarrow> real list" where
  "fillna v col = map (\<lambda>a. case a of None \<Rightarrow> v | Some r \<Rightarrow> r) col"

text \<open>
  \<open>uniform_filter1d(input, size, mode='nearest')\<close> with the default origin: the output at \<open>i\<close>
  is the mean of the \<open>size\<close> inputs at \<open>i - size // 2, ..., i - size // 2 + size - 1\<close>, where an
  index outside the array is replaced by the nearest index inside. For \<open>size < 1\<close> scipy
  raises \<open>RuntimeError\<close>; the function here is the computation for \<open>size \<ge> 1\<close>, and the caller
  with a variable size makes the check. The empty array gives the empty array.
\<close>

definition nearest_at :: "real list \<Rightarrow> int \<Rightarrow> real" where
  "nearest_at a k = a ! nat (max 0 (min (int (length a) - 1) k))"

definition uniform_filter1d :: "real list \<Rightarrow> nat \<Rightarrow> real list" where
  "uniform_filter1d a filter_size =
     map (\<lambda>i. sum_list (map (\<lambda>k. nearest_at a (int i - int (filter_size div 2) + int k))
                          [0..<filter_size]) / real filter_size)
         [0..<length a]"

text \<open>
  \<open>Series.idxmin()\<close> and \<open>Series.idxmax()\<close> on a column without NaN and with the default
  index \<open>0, 1, ...\<close>: the position of the first occurrence of the least (greatest) value;
  \<open>ValueError\<close> on the empty column.
\<close>

fun first_min :: "real \<Rightarrow> nat \<Rightarrow> nat \<Rightarrow> real list \<Rightarrow> nat" where
  "first_min best best_i i [] = best_i"
| "first_min best best_i i (v # vs) =
     (if v < best then first_min v i (Suc i) vs else first_min best best_i (Suc i) vs)"

fun first_max :: "real \<Rightarrow> nat \<Rightarrow> nat \<Rightarrow> real list \<Rightarrow> nat" where
  "first_max best best_i i [] = best_i"
| "first_max best best_i i (v # vs) =
     (if best < v then first_max v i (Suc i) vs else first_max best best_i (Suc i) vs)"

definition idxmin :: "real list \<Rightarrow> py_error + nat" where
  "idxmin a = (case a of [] \<Rightarrow> Inl ValueError | v # vs \<Rightarrow> Inr (first_min v 0 1 vs))"

definition idxmax :: "real list \<Rightarrow> py_error + nat" where
  "idxmax a = (case a of [] \<Rightarrow> Inl ValueError | v # vs \<Rightarrow> Inr (first_max v 0 1 vs))"

section \<open>TrackAligner: \<open>align_diff_by_minimum\<close>\<close>

text \<open>
  A paired track is the frame built by \<open>read_bedgraph_tracks\<close>, column by column, with the
  default index; all columns have the same length. The function adds the columns
  \<open>diff_roll\<close> and \<open>x\<close> and may replace the column \<open>start\<close>.
\<close>

record paired_track =
  t_chromosome :: "string list"
  t_start :: "int list"
  t_end :: "int list"
  t_BrdU :: "real option list"
  t_EdU :: "real option list"
  t_diff :: "real option list"

record aligned_track = paired_track +
  t_diff_roll :: "real list"
  t_x :: "int list"

definition align_diff_by_minimum :: "paired_track \<Rightarrow> int \<Rightarrow> py_error + aligned_track" where
  "align_diff_by_minimum df window_size =
     (if window_size < 1 then Inl RuntimeError
      else
        (let diff_roll = uniform_filter1d (fillna 0 (t_diff df)) (nat window_size)
         in case idxmin diff_roll of
              Inl e \<Rightarrow> Inl e
            | Inr imin \<Rightarrow>
                (case idxmax diff_roll of
                   Inl e \<Rightarrow> Inl e
                 | Inr imax \<Rightarrow>
                     (let min_start = t_start df ! imin;
                          max_start = t_start df ! imax;
                          start' = (if min_start > max_start then rev (t_start df)
                                    else t_start df);
                          min_start' = start' ! imin
                      in Inr \<lparr>t_chromosome = t_chromosome df, t_start = start', t_end = t_end df,
                               t_BrdU = t_BrdU df, t_EdU = t_EdU df, t_diff = t_diff df,
                               t_diff_roll = diff_roll,
                               t_x = map (\<lambda>s. s - min_start') start'\<rparr>))))"

section \<open>Summarizer: \<open>summarize_combined_tracks\<close>\<close>

text \<open>
  The combined frame is given by its columns \<open>x\<close> and \<open>diff\<close>, row by row. \<open>groupby("x")\<close>
  makes one group per distinct \<open>x\<close>, in ascending order; the aggregations skip NaN:
  \<open>count\<close> is the number of values that are not NaN, \<open>mean\<close> and \<open>median\<close> are NaN for
  no value, and \<open>std\<close> (one delta degree of freedom) is NaN for fewer than two values and
  otherwise the square root of the sum of the squared deviations from the mean over
  \<open>n - 1\<close>. NaN propagates through the arithmetic on the columns.
\<close>

record summary_row =
  s_x :: int
  s_median_diff :: "real option"
  s_mean :: "real option"
  s_sd :: "real option"
  s_n :: nat
  s_se :: "real option"
  s_ci_lower :: "real option"
  s_ci_upper :: "real option"

definition group_values :: "int \<Rightarrow> (int \<times> real option) list \<Rightarrow> real list" where
  "group_values k rows = List.map_filter (\<lambda>r. if fst r = k then snd r else None) rows"

definition agg_mean :: "real list \<Rightarrow> real option" where
  "agg_mean vs = (if vs = [] then None else Some (sum_list vs / real (length vs)))"

definition agg_median :: "real list \<Rightarrow> real option" where
  "agg_median vs =
     (if vs = [] then None
      else (let s = sort vs; n = length s
            in Some (if odd n then s ! (n div 2) else (s ! (n div 2 - 1) + s ! (n div 2)) / 2)))"

definition agg_std :: "real list \<Rightarrow> real option" where
  "agg_std vs =
     (if length vs \<le> 1 then None
      else (let avg = sum_list vs / real (length vs)
            in Some (sqrt (sum_list (map (\<lambda>v. (avg - v)\<^sup>2) vs) / real (length vs - 1)))))"

definition summarize_group :: "(int \<times> real option) list \<Rightarrow> int \<Rightarrow> summary_row" where
  "summarize_group rows k =
     (let vs = group_values k rows;
          mean = agg_mean vs;
          sd = agg_std vs;
          n = length vs;
          se = map_option (\<lambda>s. s / sqrt (real n)) sd;
          ci_lower = (case (mean, se) of (Some m, Some e) \<Rightarrow> Some (m - 196 / 100 * e) | _ \<Rightarrow> None);
          ci_upper = (case (mean, se) of (Some m, Some e) \<Rightarrow> Some (m + 196 / 100 * e) | _ \<Rightarrow> None)
      in \<lparr>s_x = k, s_median_diff = agg_median vs, s_mean = mean, s_sd = sd, s_n = n, s_se = se,
          s_ci_lower = ci_lower, s_ci_upper = ci_upper\<rparr>)"

definition summarize_combined_tracks :: "(int \<times> real option) list \<Rightarrow> summary_row list" where
  "summarize_combined_tracks combined_df =
     map (summarize_group combined_df) (sort (remdups (map fst combined_df)))"

section \<open>BoundaryDetector: \<open>detect_signal_boundaries\<close> and \<open>edu_boundaries_detect\<close>\<close>





text \<open>
  \<open>rolling(window, center=True, min_periods=1).mean()\<close> on a column without NaN: the
  window of row \<open>i\<close> are the rows \<open>i + offset - window + 1, ..., i + offset\<close> that exist, with
  \<open>offset = (window - 1) // 2\<close>; for the window 201 these are the rows within 100 rows of
  \<open>i\<close>.
\<close>

definition rolling_mean :: "real list \<Rightarrow> nat \<Rightarrow> real list" where
  "rolling_mean a window =
     map (\<lambda>i. (let offset = (window - 1) div 2;
                    lo = nat (max 0 (int i + int offset - int window + 1));
                    hi = min (length a) (i + offset + 1);
                    w = map (\<lambda>j. a ! j) [lo..<hi]
                in sum_list w / real (length w)))
         [0..<length a]"











subsection \<open>Example frames\<close>



definition example_paired :: paired_track where
  "example_paired =
     \<lparr>t_chromosome = [''chr1'', ''chr1'', ''chr1'', ''chr1'', ''chr1'', ''chr1''],
      t_start = [100, 200, 300, 400, 500, 600],
      t_end = [110, 210, 310, 410, 510, 610],
      t_BrdU = [Some 3, Some 1, None, Some 0, Some 0, Some 5],
      t_EdU = [Some 0, Some 0, Some 0, Some 2, Some 2, Some 0],
      t_diff = [Some 3, Some 1, None, Some (- 2), Some (- 2), Some 5]\<rparr>"

definition example_aligned :: aligned_track where
  "example_aligned =
     \<lparr>t_chromosome = [''chr1'', ''chr1'', ''chr1'', ''chr1'', ''chr1'', ''chr1''],
      t_start = [600, 500, 400, 300, 200, 100],
      t_end = [110, 210, 310, 410, 510, 610],
      t_BrdU = [Some 3, Some 1, None, Some 0, Some 0, Some 5],
      t_EdU = [Some 0, Some 0, Some 0, Some 2, Some 2, Some 0],
      t_diff = [Some 3, Some 1, None, Some (- 2), Some (- 2), Some 5],
      t_diff_roll = [5 / 2, 7 / 4, 1 / 2, - (3 / 4), 1 / 4, 3 / 2],
      t_x = [300, 200, 100, 0, - 100, - 200]\<rparr>"

definition example_rows :: "(int \<times> real option) list" where
  "example_rows = [(0, Some 1), (5, Some 2), (0, Some 3), (0, None), (7, None)]"

section \<open>Properties of the tag decoder\<close>

lemma length_spec_offsets: "length (spec_offsets off skips) = length skips"
  by (induction skips arbitrary: off) auto

lemma length_spec_group_calls: "length (spec_group_calls g) = length (snd g)"
  by (simp add: spec_group_calls_def length_spec_offsets)

lemma length_spec_calls: "length (spec_calls gs) = position_count gs"
  by (induction gs) (auto simp: spec_calls_def position_count_def length_spec_group_calls)

lemma spec_calls_Cons: "spec_calls (g # gs) = spec_group_calls g @ spec_calls gs"
  by (simp add: spec_calls_def)

lemma position_count_Cons: "position_count (g # gs) = length (snd g) + position_count gs"
  by (simp add: position_count_def)

lemma apply_calls_Nil: "apply_calls d [] = d"
  by (simp add: apply_calls_def)

lemma apply_calls_Cons:
  "apply_calls d (c # cs) = apply_calls (record_call (fst (fst c)) (snd (fst c)) (snd c) d) cs"
  by (simp add: apply_calls_def)

lemma apply_calls_append: "apply_calls d (cs @ cs') = apply_calls (apply_calls d cs) cs'"
  by (simp add: apply_calls_def)

lemma positions_loop_eq:
  "positions_loop k skips off ml d =
     (if length ml < length skips then Inl StopIteration
      else Inr (drop (length skips) ml,
                apply_calls d (zip (map (Pair k) (spec_offsets off skips)) ml)))"
proof (induction skips arbitrary: off ml d)
  case Nil
  show ?case by (simp add: apply_calls_Nil)
next
  case (Cons s skips)
  show ?case
  proof (cases ml)
    case Nil
    then show ?thesis by simp
  next
    case (Cons b ml')
    then show ?thesis by (simp add: Cons.IH apply_calls_Cons)
  qed
qed

lemma zip_take_length: "zip xs (take (length xs) ys) = zip xs ys"
proof (induction xs arbitrary: ys)
  case Nil
  show ?case by simp
next
  case (Cons a xs)
  then show ?case by (cases ys) auto
qed

lemma entries_loop_eq:
  "groups_of es = Inr gs \<Longrightarrow>
   entries_loop es ml d =
     (if length ml < position_count gs then Inl StopIteration
      else Inr (drop (position_count gs) ml, apply_calls d (zip (spec_calls gs) ml)))"
proof (induction es arbitrary: gs ml d)
  case Nil
  then show ?case by (simp add: position_count_def spec_calls_def apply_calls_Nil)
next
  case (Cons e es)
  from Cons.prems obtain g gs' where g: "entry_group e = Inr g" and gs': "groups_of es = Inr gs'"
    and gs: "gs = g # gs'"
    by (auto split: sum.splits)
  from g obtain k flds where sp: "str_split CHR '','' e = k # flds" and mi: "map_int flds = Inr (snd g)"
    and k: "fst g = k"
    by (auto simp: entry_group_def split: list.splits sum.splits)
  show ?case
  proof (cases "length ml < length (snd g)")
    case True
    then show ?thesis
      by (simp add: sp mi positions_loop_eq gs position_count_Cons)
  next
    case False
    have t: "zip (spec_group_calls g) (take (length (snd g)) ml) = zip (spec_group_calls g) ml"
      using zip_take_length [of "spec_group_calls g" ml] by (simp add: length_spec_group_calls)
    have z: "zip (spec_calls (g # gs')) ml =
             zip (spec_group_calls g) ml @ zip (spec_calls gs') (drop (length (snd g)) ml)"
      by (simp add: spec_calls_Cons zip_append1 length_spec_group_calls t)
    have a: "length ml - length (snd g) < position_count gs' \<longleftrightarrow>
             length ml < position_count (g # gs')"
      using False by (auto simp: position_count_Cons)
    have p: "positions_loop k (snd g) 0 ml d =
             Inr (drop (length (snd g)) ml, apply_calls d (zip (spec_group_calls g) ml))"
      using False by (simp add: positions_loop_eq spec_group_calls_def k)
    have d: "drop (position_count gs' + length (snd g)) ml = drop (position_count (g # gs')) ml"
      by (simp add: position_count_Cons add.commute)
    show ?thesis
      unfolding gs
      by (simp add: sp mi p Cons.IH [OF gs'] a z d apply_calls_append)
  qed
qed

lemma map_of_snoc:
  "map_of d p = None \<Longrightarrow> map_of (d @ [(p, v)]) q = (if q = p then Some v else map_of d q)"
  by (induction d) (auto split: if_splits)

lemma map_of_record_call:
  "map_of (record_call k p b d) q =
     (if q = p then Some (store_prob k b (case map_of d p of None \<Rightarrow> fresh_entry | Some e \<Rightarrow> e))
      else map_of d q)"
  by (auto simp: record_call_def store_prob_def Let_def map_of_map_entry map_of_snoc
      simp del: map_of_append split: option.splits)

lemma distinct_record_call:
  "distinct (map fst d) \<Longrightarrow> distinct (map fst (record_call k p b d))"
  by (auto simp: record_call_def Let_def distinct_map_entry map_of_eq_None_iff)

lemma distinct_apply_calls:
  "distinct (map fst d) \<Longrightarrow> distinct (map fst (apply_calls d calls))"
  by (induction calls arbitrary: d) (auto simp: apply_calls_Nil apply_calls_Cons distinct_record_call)

lemma spec_recorded_snoc: "spec_recorded (calls @ [c]) = insert (snd (fst c)) (spec_recorded calls)"
  by (auto simp: spec_recorded_def)

lemma spec_channel_alt:
  "spec_channel kind calls p =
     (if filter (\<lambda>c. fst (fst c) = kind \<and> snd (fst c) = p) calls = [] then 0
      else real (snd (last (filter (\<lambda>c. fst (fst c) = kind \<and> snd (fst c) = p) calls))) / 255)"
  by (simp add: spec_channel_def split: list.splits)

lemma spec_channel_snoc:
  "spec_channel kind (calls @ [c]) p =
     (if fst (fst c) = kind \<and> snd (fst c) = p then real (snd c) / 255
      else spec_channel kind calls p)"
  by (simp add: spec_channel_alt)

lemma spec_channel_unrecorded:
  "p \<notin> spec_recorded calls \<Longrightarrow> spec_channel kind calls p = 0"
proof -
  assume "p \<notin> spec_recorded calls"
  then have "filter (\<lambda>c. fst (fst c) = kind \<and> snd (fst c) = p) calls = []"
    by (auto simp: spec_recorded_def filter_empty_conv image_iff)
  then show ?thesis by (simp add: spec_channel_def)
qed

lemma map_of_apply_calls:
  "map_of (apply_calls [] calls) p =
     (if p \<in> spec_recorded calls
      then Some \<lparr>p_BrdU = spec_channel ''N+b?'' calls p,
                 p_EdU = spec_channel ''N+e?'' calls p, p_None = 1\<rparr>
      else None)"
proof (induction calls arbitrary: p rule: rev_induct)
  case Nil
  show ?case by (simp add: apply_calls_Nil spec_recorded_def)
next
  case (snoc c calls)
  have step: "apply_calls [] (calls @ [c]) =
              record_call (fst (fst c)) (snd (fst c)) (snd c) (apply_calls [] calls)"
    by (simp add: apply_calls_append apply_calls_Cons apply_calls_Nil)
  show ?case
  proof (cases "p = snd (fst c)")
    case False
    then show ?thesis
      by (simp add: step map_of_record_call snoc.IH spec_recorded_snoc spec_channel_snoc)
  next
    case True
    show ?thesis
    proof (cases "p \<in> spec_recorded calls")
      case True
      with \<open>p = snd (fst c)\<close> show ?thesis
        by (simp add: step map_of_record_call snoc.IH spec_recorded_snoc spec_channel_snoc
            store_prob_def)
    next
      case False
      with \<open>p = snd (fst c)\<close> show ?thesis
        by (simp add: step map_of_record_call snoc.IH spec_recorded_snoc spec_channel_snoc
            store_prob_def fresh_entry_def spec_channel_unrecorded)
    qed
  qed
qed

lemma map_of_recompute_none:
  "map_of (recompute_none d) p =
     map_option (\<lambda>e. e\<lparr>p_None := max 0 (1 - (p_BrdU e + p_EdU e))\<rparr>) (map_of d p)"
  by (induction d) (auto simp: recompute_none_def)

lemma map_fst_recompute_none: "map fst (recompute_none d) = map fst d"
  by (induction d) (auto simp: recompute_none_def)

lemma parse_ml_mm_eq:
  "mm_groups mm = Inr gs \<Longrightarrow>
   parse_ml_mm mm ml =
     (if length ml < position_count gs then Inl StopIteration
      else Inr (recompute_none (apply_calls [] (zip (spec_calls gs) ml))))"
  by (simp add: parse_ml_mm_def mm_groups_def entries_loop_eq)

lemma map_of_decoded:
  "map_of (recompute_none (apply_calls [] calls)) = spec_decode calls"
  by (rule ext) (simp add: map_of_recompute_none map_of_apply_calls spec_decode_def diff_diff_eq)

subsection \<open>Lexing of tag strings in the standard form\<close>


lemma split_acc_no_sep: "sep \<notin> set xs \<Longrightarrow> split_acc sep acc xs = [rev acc @ xs]"
  by (induction xs arbitrary: acc) auto

lemma split_acc_sep:
  "sep \<notin> set xs \<Longrightarrow> split_acc sep acc (xs @ sep # rest) = (rev acc @ xs) # split_acc sep [] rest"
  by (induction xs arbitrary: acc) auto

lemma split_acc_prefixed:
  "sep \<notin> set xs \<Longrightarrow> \<forall>y \<in> set ys. sep \<notin> set y \<Longrightarrow>
   split_acc sep acc (xs @ concat (map (\<lambda>y. sep # y) ys)) = (rev acc @ xs) # ys"
proof (induction ys arbitrary: acc xs)
  case Nil
  then show ?case by (simp add: split_acc_no_sep)
next
  case (Cons y ys)
  have "split_acc sep acc (xs @ sep # (y @ concat (map (\<lambda>y. sep # y) ys)))
        = (rev acc @ xs) # split_acc sep [] (y @ concat (map (\<lambda>y. sep # y) ys))"
    using Cons.prems(1) by (rule split_acc_sep)
  also have "split_acc sep [] (y @ concat (map (\<lambda>y. sep # y) ys)) = (rev [] @ y) # ys"
    using Cons.prems(2) by (intro Cons.IH) auto
  finally show ?case by simp
qed

lemma split_acc_terminated:
  "\<forall>y \<in> set ys. sep \<notin> set y \<Longrightarrow>
   split_acc sep [] (concat (map (\<lambda>y. y @ [sep]) ys)) = ys @ [[]]"
proof (induction ys)
  case Nil
  then show ?case by simp
next
  case (Cons y ys)
  have "split_acc sep [] (y @ sep # concat (map (\<lambda>y. y @ [sep]) ys))
        = (rev [] @ y) # split_acc sep [] (concat (map (\<lambda>y. y @ [sep]) ys))"
    using Cons.prems by (intro split_acc_sep) auto
  then show ?case using Cons by simp
qed

lemma is_digit_digit_char: "d < 10 \<Longrightarrow> is_digit (digit_char d)"
  by (simp add: is_digit_def digit_char_def)

lemma digit_val_digit_char: "d < 10 \<Longrightarrow> digit_val (digit_char d) = d"
  by (simp add: digit_val_def digit_char_def)

lemma decimal_digits: "c \<in> set (decimal n) \<Longrightarrow> is_digit c"
proof (induction n arbitrary: c rule: decimal.induct)
  case (1 n)
  show ?case
  proof (cases "n < 10")
    case True
    then show ?thesis using "1.prems" by (subst (asm) decimal.simps) (simp add: is_digit_digit_char)
  next
    case False
    then have "c \<in> set (decimal (n div 10)) \<or> c = digit_char (n mod 10)"
      using "1.prems" by (subst (asm) decimal.simps) auto
    then show ?thesis using "1.IH" False by (auto simp: is_digit_digit_char)
  qed
qed

lemma decimal_not_Nil: "decimal n \<noteq> []"
  by (subst decimal.simps) simp

lemma py_digits_digits:
  "\<forall>c \<in> set ds. is_digit c \<Longrightarrow>
   py_digits b acc (ds @ cs) =
     py_digits (b \<or> ds \<noteq> []) (foldl (\<lambda>a c. 10 * a + digit_val c) acc ds) cs"
  by (induction ds arbitrary: b acc) auto

lemma foldl_decimal: "foldl (\<lambda>a c. 10 * a + digit_val c) 0 (decimal n) = n"
proof (induction n rule: decimal.induct)
  case (1 n)
  show ?case
  proof (cases "n < 10")
    case True
    then show ?thesis by (subst decimal.simps) (simp add: digit_val_digit_char)
  next
    case False
    then have "foldl (\<lambda>a c. 10 * a + digit_val c) 0 (decimal (n div 10)) = n div 10"
      using "1.IH" by simp
    then show ?thesis using False by (subst decimal.simps) (simp add: digit_val_digit_char)
  qed
qed

lemma py_digits_decimal: "py_digits False 0 (decimal n) = Some n"
  using py_digits_digits [of "decimal n" False 0 "[]"]
  by (simp add: decimal_digits foldl_decimal decimal_not_Nil)

lemma digit_not_space: "is_digit c \<Longrightarrow> \<not> is_py_space c"
  by (auto simp: is_digit_def is_py_space_def)

lemma digit_not_special:
  "is_digit c \<Longrightarrow> c \<noteq> CHR ''-'' \<and> c \<noteq> CHR ''+'' \<and> c \<noteq> CHR '','' \<and> c \<noteq> CHR '';''"
  by (auto simp: is_digit_def)

lemma str_strip_decimal: "str_strip (decimal n) = decimal n"
proof -
  have h: "\<not> is_py_space (hd (decimal n))"
    using decimal_digits [of "hd (decimal n)" n] decimal_not_Nil [of n]
    by (simp add: digit_not_space)
  have l: "\<not> is_py_space (last (decimal n))"
    using decimal_digits [of "last (decimal n)" n] decimal_not_Nil [of n]
    by (simp add: digit_not_space)
  have a: "dropWhile is_py_space (decimal n) = decimal n"
    using h decimal_not_Nil [of n] by (cases "decimal n") auto
  have b: "dropWhile is_py_space (rev (decimal n)) = rev (decimal n)"
    using l decimal_not_Nil [of n] by (cases "rev (decimal n)") (auto simp: hd_rev [symmetric])
  show ?thesis
    by (simp add: str_strip_def a b)
qed

lemma py_int_decimal: "py_int (decimal n) = Inr (int n)"
proof -
  obtain c cs where d: "decimal n = c # cs"
    using decimal_not_Nil [of n] by (cases "decimal n") auto
  then have "is_digit c"
    using decimal_digits [of c n] by simp
  then have "c \<noteq> CHR ''-''" and "c \<noteq> CHR ''+''"
    using digit_not_special by auto
  moreover have "py_digits False 0 (c # cs) = Some n"
    using py_digits_decimal [of n] d by simp
  moreover have "str_strip (c # cs) = c # cs"
    using str_strip_decimal [of n] d by simp
  ultimately show ?thesis
    by (simp add: py_int_def d)
qed

lemma map_int_decimal: "map_int (map decimal ns) = Inr (map int ns)"
  by (induction ns) (auto simp: py_int_decimal)

lemma str_split_entry_string:
  assumes "CHR '','' \<notin> set (fst g)"
  shows "str_split CHR '','' (entry_string g) = fst g # map decimal (snd g)"
proof -
  have "split_acc CHR '','' [] (fst g @ concat (map (\<lambda>y. CHR '','' # y) (map decimal (snd g))))
        = (rev [] @ fst g) # map decimal (snd g)"
    using assms by (intro split_acc_prefixed) (auto dest: decimal_digits digit_not_special)
  then show ?thesis
    by (simp add: str_split_def entry_string_def comp_def)
qed

lemma entry_group_entry_string:
  "CHR '','' \<notin> set (fst g) \<Longrightarrow> entry_group (entry_string g) = Inr (fst g, map int (snd g))"
  by (simp add: entry_group_def str_split_entry_string map_int_decimal)

lemma groups_of_entry_strings:
  "\<forall>g \<in> set gs. CHR '','' \<notin> set (fst g) \<Longrightarrow>
   groups_of (map entry_string gs) = Inr (tag_groups gs)"
  by (induction gs) (auto simp: entry_group_entry_string tag_groups_def)

lemma semicolon_notin_entry_string:
  "CHR '';'' \<notin> set (fst g) \<Longrightarrow> CHR '';'' \<notin> set (entry_string g)"
  by (auto simp: entry_string_def dest: decimal_digits digit_not_special)

lemma mm_entries_tag_string:
  assumes "\<forall>g \<in> set gs. valid_kind (fst g)"
  shows "mm_entries (tag_string gs) = map entry_string gs"
proof -
  have "split_acc CHR '';'' [] (concat (map (\<lambda>y. y @ [CHR '';'']) (map entry_string gs)))
        = map entry_string gs @ [[]]"
    using assms by (intro split_acc_terminated) (auto simp: valid_kind_def semicolon_notin_entry_string)
  then have s: "str_split CHR '';'' (tag_string gs) = map entry_string gs @ [[]]"
    by (simp add: str_split_def tag_string_def comp_def)
  have "filter (\<lambda>entry. entry \<noteq> []) (map entry_string gs) = map entry_string gs"
    using assms by (auto simp: filter_id_conv valid_kind_def entry_string_def)
  then show ?thesis
    by (simp add: mm_entries_def s)
qed

lemma mm_groups_tag_string:
  assumes "\<forall>g \<in> set gs. valid_kind (fst g)"
  shows "mm_groups (tag_string gs) = Inr (tag_groups gs)"
  using assms by (simp add: mm_groups_def mm_entries_tag_string groups_of_entry_strings valid_kind_def)

lemma position_count_tag_groups:
  "position_count (tag_groups gs) = sum_list (map (\<lambda>g. length (snd g)) gs)"
  by (simp add: position_count_def tag_groups_def comp_def)




lemmas decoder_eval =
  parse_ml_mm_def mm_entries_def str_split_def py_int_def str_strip_def is_py_space_def
  is_digit_def digit_val_def record_call_def fresh_entry_def recompute_none_def mm_groups_def
  entry_group_def position_count_def

lemmas render_eval = tag_string_def entry_string_def decimal.simps digit_char_def char_of_def
  bit_0

text \<open>
  Claim C1. For every list of groups with valid kinds and every byte sequence with at least
  as many bytes as the groups have positions, \<open>parse_ml_mm\<close> on the tag string of the groups
  returns a dictionary with distinct keys that is the specification's decoder: groups in
  declaration order, the running offset restarting at 0 in each group and advanced by
  \<open>skip + 1\<close> before each position is recorded, the next byte over 255 stored in the channel
  of the group's kind, and \<open>None = max 0 (1 - BrdU - EdU)\<close> at every recorded offset. The same
  holds for every tag string whose fields \<open>int\<close> accepts, with the groups that the splitting
  yields. In particular the single BrdU-kind group with skips 0, 2, 1 and bytes 255, 128, 0
  gives offsets 1, 4, 6 with BrdU 1, 128/255, 0 and None 0, 127/255, 1.
\<close>

theorem parse_ml_mm_decodes:
  "(list_all (\<lambda>g. valid_kind (fst g)) gs \<longrightarrow>
    sum_list (map (\<lambda>g. length (snd g)) gs) \<le> length ml \<longrightarrow>
      (\<exists>d. parse_ml_mm (tag_string gs) ml = Inr d \<and> distinct (map fst d) \<and>
           map_of d = spec_decode (zip (spec_calls (tag_groups gs)) ml))) \<and>
   (mm_groups mm = Inr gs' \<longrightarrow> position_count gs' \<le> length ml' \<longrightarrow>
      (\<exists>d. parse_ml_mm mm ml' = Inr d \<and> distinct (map fst d) \<and>
           map_of d = spec_decode (zip (spec_calls gs') ml'))) \<and>
   parse_ml_mm ''N+b?,0,2,1'' [255, 128, 0] =
     Inr [(1, \<lparr>p_BrdU = 1, p_EdU = 0, p_None = 0\<rparr>),
          (4, \<lparr>p_BrdU = 128 / 255, p_EdU = 0, p_None = 127 / 255\<rparr>),
          (6, \<lparr>p_BrdU = 0, p_EdU = 0, p_None = 1\<rparr>)]"
proof (intro conjI impI)
  assume "list_all (\<lambda>g. valid_kind (fst g)) gs"
    and "sum_list (map (\<lambda>g. length (snd g)) gs) \<le> length ml"
  then have "mm_groups (tag_string gs) = Inr (tag_groups gs)"
    and "position_count (tag_groups gs) \<le> length ml"
    by (simp_all add: mm_groups_tag_string position_count_tag_groups list_all_iff)
  then show "\<exists>d. parse_ml_mm (tag_string gs) ml = Inr d \<and> distinct (map fst d) \<and>
                 map_of d = spec_decode (zip (spec_calls (tag_groups gs)) ml)"
    by (simp add: parse_ml_mm_eq map_of_decoded map_fst_recompute_none distinct_apply_calls)
next
  assume "mm_groups mm = Inr gs'" and "position_count gs' \<le> length ml'"
  then show "\<exists>d. parse_ml_mm mm ml' = Inr d \<and> distinct (map fst d) \<and>
                 map_of d = spec_decode (zip (spec_calls gs') ml')"
    by (simp add: parse_ml_mm_eq map_of_decoded map_fst_recompute_none distinct_apply_calls)
next
  show "parse_ml_mm ''N+b?,0,2,1'' [255, 128, 0] =
     Inr [(1, \<lparr>p_BrdU = 1, p_EdU = 0, p_None = 0\<rparr>),
          (4, \<lparr>p_BrdU = 128 / 255, p_EdU = 0, p_None = 127 / 255\<rparr>),
          (6, \<lparr>p_BrdU = 0, p_EdU = 0, p_None = 1\<rparr>)]"
    by (simp add: decoder_eval)
qed

theorem parse_ml_mm_decodes_witness:
  "list_all (\<lambda>g. valid_kind (fst g)) [(''N+b?'', [0, 2, 10]), (''N+e?'', [1, 1])] \<and>
   sum_list (map (\<lambda>g. length (snd g)) [(''N+b?'', [0, 2, 10 :: nat]), (''N+e?'', [1, 1])])
     \<le> length [255, 128, 0, 3, 4 :: nat] \<and>
   tag_string [(''N+b?'', [0, 2, 10]), (''N+e?'', [1, 1])] = ''N+b?,0,2,10;N+e?,1,1;'' \<and>
   (\<exists>d. parse_ml_mm ''N+b?,0,2,10;N+e?,1,1;'' [255, 128, 0, 3, 4] = Inr d \<and>
        distinct (map fst d) \<and>
        map_of d = spec_decode
          (zip (spec_calls [(''N+b?'', [0, 2, 10]), (''N+e?'', [1, 1])]) [255, 128, 0, 3, 4])) \<and>
   mm_groups '' N+b?, 0 ,+2,1_0;;N+e?,1,1'' = Inr [('' N+b?'', [0, 2, 10]), (''N+e?'', [1, 1])] \<and>
   (\<exists>d. parse_ml_mm '' N+b?, 0 ,+2,1_0;;N+e?,1,1'' [255, 128, 0, 3, 4] = Inr d \<and>
        distinct (map fst d) \<and>
        map_of d = spec_decode
          (zip (spec_calls [('' N+b?'', [0, 2, 10]), (''N+e?'', [1, 1])]) [255, 128, 0, 3, 4]))"
proof -
  let ?gs = "[(''N+b?'', [0, 2, 10 :: nat]), (''N+e?'', [1, 1])]"
  let ?ml = "[255, 128, 0, 3, 4 :: nat]"
  let ?mm = "'' N+b?, 0 ,+2,1_0;;N+e?,1,1''"
  let ?gs' = "[('' N+b?'', [0, 2, 10 :: int]), (''N+e?'', [1, 1])]"
  have v: "list_all (\<lambda>g. valid_kind (fst g)) ?gs"
    by (simp add: valid_kind_def)
  have n: "sum_list (map (\<lambda>g. length (snd g)) ?gs) \<le> length ?ml"
    by simp
  have t: "tag_string ?gs = ''N+b?,0,2,10;N+e?,1,1;''"
    by (simp add: render_eval)
  have tg: "tag_groups ?gs = [(''N+b?'', [0, 2, 10]), (''N+e?'', [1, 1])]"
    by (simp add: tag_groups_def)
  have g: "mm_groups ?mm = Inr ?gs'"
    by (simp add: decoder_eval)
  have n': "position_count ?gs' \<le> length ?ml"
    by (simp add: position_count_def)
  from parse_ml_mm_decodes [of ?gs ?ml ?mm ?gs' ?ml] v n t tg g n'
  show ?thesis by simp
qed




section \<open>Properties of the window aggregator\<close>

lemma range_up_Cons:
  "0 < step \<Longrightarrow> start < stop \<Longrightarrow>
   range_up start stop step = start # range_up (start + step) stop step"
  by (subst range_up.simps) simp

lemma range_up_Nil: "\<not> (0 < step \<and> start < stop) \<Longrightarrow> range_up start stop step = []"
  by (subst range_up.simps) simp

lemma range_up_length_iff:
  "0 < step \<Longrightarrow> k < length (range_up start stop step) \<longleftrightarrow> start + int k * step < stop"
proof (induction start stop step arbitrary: k rule: range_up.induct)
  case (1 start stop step)
  show ?case
  proof (cases "start < stop")
    case True
    then have e: "range_up start stop step = start # range_up (start + step) stop step"
      using "1.prems" by (simp add: range_up_Cons)
    show ?thesis
    proof (cases k)
      case 0
      then show ?thesis using True e by simp
    next
      case (Suc j)
      have "j < length (range_up (start + step) stop step) \<longleftrightarrow> start + step + int j * step < stop"
        using "1.IH" [of j] "1.prems" True by simp
      then show ?thesis using e Suc by (simp add: algebra_simps)
    qed
  next
    case False
    then have e: "range_up start stop step = []"
      by (simp add: range_up_Nil)
    have "0 \<le> int k * step"
      using "1.prems" by simp
    then have "\<not> start + int k * step < stop"
      using False by linarith
    then show ?thesis using e by simp
  qed
qed

lemma range_up_nth:
  "0 < step \<Longrightarrow> k < length (range_up start stop step) \<Longrightarrow>
   range_up start stop step ! k = start + int k * step"
proof (induction start stop step arbitrary: k rule: range_up.induct)
  case (1 start stop step)
  show ?case
  proof (cases "start < stop")
    case True
    then have e: "range_up start stop step = start # range_up (start + step) stop step"
      using "1.prems" by (simp add: range_up_Cons)
    show ?thesis
    proof (cases k)
      case 0
      then show ?thesis using e by simp
    next
      case (Suc j)
      then have "j < length (range_up (start + step) stop step)"
        using "1.prems" e by simp
      then have "range_up (start + step) stop step ! j = start + step + int j * step"
        using "1.IH" [of j] "1.prems" True by simp
      then show ?thesis using e Suc by (simp add: algebra_simps)
    qed
  next
    case False
    then have "range_up start stop step = []"
      by (simp add: range_up_Nil)
    then show ?thesis using "1.prems" by simp
  qed
qed

lemma range_up_set:
  "set (range_up start stop 1) = {start ..< stop}"
proof (induction start stop "1 :: int" rule: range_up.induct)
  case (1 start stop)
  show ?case
  proof (cases "start < stop")
    case True
    then have e: "range_up start stop 1 = start # range_up (start + 1) stop 1"
      by (simp add: range_up_Cons)
    have "set (range_up (start + 1) stop 1) = {start + 1 ..< stop}"
      using 1 True by simp
    then show ?thesis using e True by auto
  next
    case False
    then show ?thesis by (simp add: range_up_Nil)
  qed
qed

lemma sorted_hd_Min_set: "sorted xs \<Longrightarrow> xs \<noteq> [] \<Longrightarrow> hd xs = Min (set xs)"
  by (cases xs) (auto intro!: Min_eqI [symmetric])

lemma sorted_last_Max_set: "sorted xs \<Longrightarrow> xs \<noteq> [] \<Longrightarrow> last xs = Max (set xs)"
proof (induction xs)
  case Nil
  then show ?case by simp
next
  case (Cons x xs)
  show ?case
  proof (cases "xs = []")
    case True
    then show ?thesis by simp
  next
    case False
    then have "last xs = Max (set xs)"
      using Cons by simp
    moreover have "x \<le> Max (set xs)"
      using Cons.prems False by (metis List.finite_set Max_ge hd_in_set order_trans sorted_simps(2) set_empty)
    ultimately show ?thesis
      using False by (simp add: max_def)
  qed
qed

lemma sort_neq_Nil: "xs \<noteq> [] \<Longrightarrow> sort xs \<noteq> []"
  by (metis length_sort length_0_conv)

lemma hd_sort_Min: "xs \<noteq> [] \<Longrightarrow> hd (sort xs) = Min (set xs)"
  using sorted_hd_Min_set [of "sort xs"] by (simp add: sort_neq_Nil)

lemma last_sort_Max: "xs \<noteq> [] \<Longrightarrow> last (sort xs) = Max (set xs)"
  using sorted_last_Max_set [of "sort xs"] by (simp add: sort_neq_Nil)

lemma foldl_window_sums:
  "foldl (\<lambda>(brdu_sum, edu_sum, t_count) pos.
            (case f pos of
               None \<Rightarrow> (brdu_sum, edu_sum, t_count)
             | Some e \<Rightarrow> (brdu_sum + p_BrdU e, edu_sum + p_EdU e, t_count + 1)))
         (a, b, n) xs =
   (a + sum_list (map p_BrdU (List.map_filter f xs)),
    b + sum_list (map p_EdU (List.map_filter f xs)),
    n + length (List.map_filter f xs))"
  by (induction xs arbitrary: a b n) (auto split: option.splits)

lemma window_sums_eq:
  "window_sums mod_positions window_start window_end =
     (sum_list (map p_BrdU (List.map_filter (map_of mod_positions) (range_up window_start window_end 1))),
      sum_list (map p_EdU (List.map_filter (map_of mod_positions) (range_up window_start window_end 1))),
      length (List.map_filter (map_of mod_positions) (range_up window_start window_end 1)))"
  unfolding window_sums_def by (simp add: foldl_window_sums)

lemma map_filter_empty:
  "(\<forall>x \<in> set xs. f x = None) \<Longrightarrow> List.map_filter f xs = []"
  by (induction xs) auto

lemma window_at_start: "fst (window_at m w s) = s"
  by (simp add: window_at_def Let_def split: prod.splits)

lemma window_at_end: "fst (snd (window_at m w s)) = s + w"
  by (simp add: window_at_def Let_def split: prod.splits)

lemma window_at_zero:
  assumes "\<forall>pos. s \<le> pos \<and> pos < s + w \<longrightarrow> map_of m pos = None"
  shows "snd (snd (window_at m w s)) = (0, 0)"
proof -
  have "List.map_filter (map_of m) (range_up s (s + w) 1) = []"
    using assms by (intro map_filter_empty) (simp add: range_up_set)
  then show ?thesis
    by (simp add: window_at_def Let_def window_sums_eq)
qed

lemma compute_sliding_windows_eq:
  assumes "mod_positions \<noteq> []" and "0 < step_size"
  shows "compute_sliding_windows mod_positions window_size step_size =
           Inr (map (window_at mod_positions window_size)
                  (range_up (Min (fst ` set mod_positions))
                     (Max (fst ` set mod_positions) - window_size + 1) step_size))"
proof -
  have ne: "map fst mod_positions \<noteq> []"
    using assms by simp
  then have s: "sort (map fst mod_positions) \<noteq> []"
    by (metis length_sort length_0_conv)
  show ?thesis
    using assms s hd_sort_Min [OF ne] last_sort_Max [OF ne]
    by (simp add: compute_sliding_windows_def Let_def py_range_def)
qed

text \<open>
  Claim C2. For a non-empty dictionary and positive \<open>window_size\<close> and \<open>step_size\<close>,
  \<open>compute_sliding_windows\<close> returns the windows whose starts are \<open>min_pos + k * step_size\<close> for
  exactly those \<open>k\<close> with \<open>min_pos + k * step_size \<le> max_pos - window_size\<close>, in ascending
  order of start, each with \<open>end = start + window_size\<close>; a window whose range
  \<open>[start, end)\<close> holds no mapped position has both frequencies 0; and the result is empty
  when \<open>min_pos + window_size > max_pos\<close>. Here \<open>min_pos\<close> and \<open>max_pos\<close> are the least and the
  greatest key of the dictionary.
\<close>

theorem compute_sliding_windows_starts:
  assumes "mod_positions \<noteq> []" and "0 < window_size" and "0 < step_size"
  shows "\<exists>ws. compute_sliding_windows mod_positions window_size step_size = Inr ws \<and>
           (\<forall>k. k < length ws \<longleftrightarrow>
                  Min (fst ` set mod_positions) + int k * step_size
                    \<le> Max (fst ` set mod_positions) - window_size) \<and>
           (\<forall>k < length ws.
                  fst (ws ! k) = Min (fst ` set mod_positions) + int k * step_size \<and>
                  fst (snd (ws ! k)) = fst (ws ! k) + window_size \<and>
                  ((\<forall>pos. fst (ws ! k) \<le> pos \<and> pos < fst (snd (ws ! k)) \<longrightarrow>
                            map_of mod_positions pos = None) \<longrightarrow>
                   snd (snd (ws ! k)) = (0, 0))) \<and>
           sorted_wrt (<) (map fst ws) \<and>
           (Max (fst ` set mod_positions) < Min (fst ` set mod_positions) + window_size \<longrightarrow>
              ws = [])"
proof -
  define lo where "lo = Min (fst ` set mod_positions)"
  define hi where "hi = Max (fst ` set mod_positions)"
  define starts where "starts = range_up lo (hi - window_size + 1) step_size"
  define ws where "ws = map (window_at mod_positions window_size) starts"
  have r: "compute_sliding_windows mod_positions window_size step_size = Inr ws"
    using assms by (simp add: compute_sliding_windows_eq ws_def starts_def lo_def hi_def)
  have len: "k < length ws \<longleftrightarrow> lo + int k * step_size \<le> hi - window_size" for k
    using range_up_length_iff [OF assms(3), of k lo "hi - window_size + 1"]
    by (simp add: ws_def starts_def)
  have nth: "ws ! k = window_at mod_positions window_size (lo + int k * step_size)"
    if "k < length ws" for k
    using that range_up_nth [OF assms(3), of k lo "hi - window_size + 1"]
    by (simp add: ws_def starts_def)
  have row: "fst (ws ! k) = lo + int k * step_size \<and>
             fst (snd (ws ! k)) = fst (ws ! k) + window_size \<and>
             ((\<forall>pos. fst (ws ! k) \<le> pos \<and> pos < fst (snd (ws ! k)) \<longrightarrow>
                       map_of mod_positions pos = None) \<longrightarrow>
              snd (snd (ws ! k)) = (0, 0))"
    if "k < length ws" for k
    using nth [OF that] window_at_zero [of "lo + int k * step_size" window_size mod_positions]
    by (simp add: window_at_start window_at_end)
  have srt: "sorted_wrt (<) (map fst ws)"
  proof (subst sorted_wrt_iff_nth_less, intro allI impI)
    fix i j
    assume "i < j" and "j < length (map fst ws)"
    then have "fst (ws ! i) = lo + int i * step_size" "fst (ws ! j) = lo + int j * step_size"
      using row by simp_all
    moreover have "int i * step_size < int j * step_size"
      using \<open>i < j\<close> assms(3) by simp
    ultimately show "map fst ws ! i < map fst ws ! j"
      using \<open>i < j\<close> \<open>j < length (map fst ws)\<close> by simp
  qed
  have emp: "ws = []" if "hi < lo + window_size"
  proof -
    have "\<not> 0 < length ws"
      using len [of 0] that by simp
    then show ?thesis by simp
  qed
  show ?thesis
    using r len row srt emp unfolding lo_def hi_def by blast
qed


lemmas window_eval = compute_sliding_windows_def py_range_def window_at_def window_sums_def
  range_up.simps

theorem compute_sliding_windows_starts_witness:
  "[(1, \<lparr>p_BrdU = 1, p_EdU = 0, p_None = 0\<rparr>), (9, \<lparr>p_BrdU = 0, p_EdU = 1 / 2, p_None = 1 / 2\<rparr>),
    (4, \<lparr>p_BrdU = 1 / 2, p_EdU = 0, p_None = 1 / 2\<rparr>)] \<noteq> [] \<and>
   (0 :: int) < 2 \<and> (0 :: int) < 3 \<and>
   compute_sliding_windows
     [(1, \<lparr>p_BrdU = 1, p_EdU = 0, p_None = 0\<rparr>), (9, \<lparr>p_BrdU = 0, p_EdU = 1 / 2, p_None = 1 / 2\<rparr>),
      (4, \<lparr>p_BrdU = 1 / 2, p_EdU = 0, p_None = 1 / 2\<rparr>)] 2 3 =
     Inr [(1, 3, 1, 0), (4, 6, 1 / 2, 0), (7, 9, 0, 0)] \<and>
   (\<exists>ws. compute_sliding_windows
           [(1, \<lparr>p_BrdU = 1, p_EdU = 0, p_None = 0\<rparr>), (9, \<lparr>p_BrdU = 0, p_EdU = 1 / 2, p_None = 1 / 2\<rparr>),
            (4, \<lparr>p_BrdU = 1 / 2, p_EdU = 0, p_None = 1 / 2\<rparr>)] 2 3 = Inr ws \<and>
         length ws = 3 \<and> map fst ws = [1, 4, 7] \<and> map (fst \<circ> snd) ws = [3, 6, 9] \<and>
         snd (snd (ws ! 2)) = (0, 0))"
proof -
  let ?m = "[(1 :: int, \<lparr>p_BrdU = 1, p_EdU = 0, p_None = 0\<rparr>),
             (9, \<lparr>p_BrdU = 0, p_EdU = 1 / 2, p_None = 1 / 2\<rparr>),
             (4, \<lparr>p_BrdU = 1 / 2, p_EdU = 0, p_None = 1 / 2\<rparr>)]"
  have v: "compute_sliding_windows ?m 2 3 = Inr [(1, 3, 1, 0), (4, 6, 1 / 2, 0), (7, 9, 0, 0)]"
    by (simp add: window_eval)
  have "?m \<noteq> []" and "(0 :: int) < 2" and "(0 :: int) < 3"
    by simp_all
  from compute_sliding_windows_starts [OF this] v
  show ?thesis by simp
qed

section \<open>Properties of the coordinate mapper and of the per-read pipeline\<close>

lemma convert_relative_to_abs_positions_eq:
  assumes "window_results \<noteq> []"
  shows "convert_relative_to_abs_positions reference_name reference_start reference_end is_reverse
     window_results =
   Inr (map (\<lambda>w. (reference_name,
                   (if is_reverse then reference_end - 1 - fst w else reference_start + 1 + fst w),
                   (if is_reverse then reference_end - 1 - fst w else reference_start + 1 + fst w)
                     + (fst (snd (hd window_results)) - fst (hd window_results)),
                   fst (snd (snd w)), snd (snd (snd w))))
          window_results)"
proof -
  obtain w0 rest where ws: "window_results = w0 # rest"
    using assms by (cases window_results) auto
  define g where "g = (\<lambda>x. if is_reverse then reference_end - 1 - x else reference_start + 1 + x)"
  define sz where "sz = fst (snd w0) - fst w0"
  have starts: "(if \<not> is_reverse then map (\<lambda>x. reference_start + 1 + x) (map fst window_results)
                 else map (\<lambda>x. reference_end - 1 - x) (map fst window_results))
                = map (\<lambda>w. g (fst w)) window_results"
    by (simp add: g_def)
  have rows: "map (\<lambda>(i, x). (reference_name, x, x + sz, fst (snd (snd (window_results ! i))),
                              snd (snd (snd (window_results ! i)))))
                (enumerate 0 (map (\<lambda>w. g (fst w)) window_results))
              = map (\<lambda>w. (reference_name, g (fst w), g (fst w) + sz, fst (snd (snd w)),
                           snd (snd (snd w)))) window_results"
    by (rule nth_equalityI) (simp_all add: nth_enumerate_eq)
  have "convert_relative_to_abs_positions reference_name reference_start reference_end is_reverse
          window_results
        = Inr (map (\<lambda>(i, x). (reference_name, x, x + sz, fst (snd (snd (window_results ! i))),
                              snd (snd (snd (window_results ! i)))))
                (enumerate 0 (map (\<lambda>w. g (fst w)) window_results)))"
    unfolding convert_relative_to_abs_positions_def Let_def starts
    by (simp add: ws sz_def)
  also have "\<dots> = Inr (map (\<lambda>w. (reference_name, g (fst w), g (fst w) + sz, fst (snd (snd w)),
                           snd (snd (snd w)))) window_results)"
    by (simp only: rows)
  finally show ?thesis
    by (simp add: g_def sz_def ws)
qed

text \<open>
  Claim C3. For a non-empty window sequence, \<open>convert_relative_to_abs_positions\<close> returns one
  row per window, in order; the row of a window with relative start \<open>r\<close> starts at
  \<open>reference_start + 1 + r\<close> on the forward strand and at \<open>reference_end - 1 - r\<close> on the reverse
  strand, ends at its start plus the span of the first input window on both strands, and
  carries the window's two frequencies.
\<close>

theorem convert_relative_to_abs_positions_rows:
  assumes "window_results \<noteq> []"
  shows "\<exists>rows. convert_relative_to_abs_positions reference_name reference_start reference_end
                  is_reverse window_results = Inr rows \<and>
           length rows = length window_results \<and>
           (\<forall>i < length rows.
              fst (rows ! i) = reference_name \<and>
              fst (snd (rows ! i)) =
                (if is_reverse then reference_end - 1 - fst (window_results ! i)
                 else reference_start + 1 + fst (window_results ! i)) \<and>
              fst (snd (snd (rows ! i))) =
                fst (snd (rows ! i)) + (fst (snd (hd window_results)) - fst (hd window_results)) \<and>
              snd (snd (snd (rows ! i))) = snd (snd (window_results ! i)))"
  using assms by (simp add: convert_relative_to_abs_positions_eq)

theorem convert_relative_to_abs_positions_rows_witness:
  "[(1, 3, 1, 0), (4, 6, 1 / 2, 0), (7 :: int, 9 :: int, 0 :: real, 0 :: real)] \<noteq> [] \<and>
   convert_relative_to_abs_positions ''chr1'' 1000 2000 False
     [(1, 3, 1, 0), (4, 6, 1 / 2, 0), (7, 9, 0, 0)] =
     Inr [(''chr1'', 1002, 1004, 1, 0), (''chr1'', 1005, 1007, 1 / 2, 0), (''chr1'', 1008, 1010, 0, 0)] \<and>
   convert_relative_to_abs_positions ''chr1'' 1000 2000 True
     [(1, 3, 1, 0), (4, 6, 1 / 2, 0), (7, 9, 0, 0)] =
     Inr [(''chr1'', 1998, 2000, 1, 0), (''chr1'', 1995, 1997, 1 / 2, 0), (''chr1'', 1992, 1994, 0, 0)] \<and>
   (\<exists>rows. convert_relative_to_abs_positions ''chr1'' 1000 2000 True
             [(1, 3, 1, 0), (4, 6, 1 / 2, 0), (7, 9, 0, 0)] = Inr rows \<and>
           length rows = 3 \<and> fst (snd (rows ! 1)) = 1995 \<and> fst (snd (snd (rows ! 1))) = 1997)"
proof -
  let ?ws = "[(1, 3, 1, 0), (4, 6, 1 / 2, 0), (7 :: int, 9 :: int, 0 :: real, 0 :: real)]"
  have ne: "?ws \<noteq> []"
    by simp
  have f: "convert_relative_to_abs_positions ''chr1'' 1000 2000 False ?ws =
     Inr [(''chr1'', 1002, 1004, 1, 0), (''chr1'', 1005, 1007, 1 / 2, 0), (''chr1'', 1008, 1010, 0, 0)]"
    by (simp add: convert_relative_to_abs_positions_def enumerate_eq_zip upt_rec)
  have r: "convert_relative_to_abs_positions ''chr1'' 1000 2000 True ?ws =
     Inr [(''chr1'', 1998, 2000, 1, 0), (''chr1'', 1995, 1997, 1 / 2, 0), (''chr1'', 1992, 1994, 0, 0)]"
    by (simp add: convert_relative_to_abs_positions_def enumerate_eq_zip upt_rec)
  from convert_relative_to_abs_positions_rows [OF ne, of "''chr1''" 1000 2000 True] f r
  show ?thesis by simp
qed

text \<open>
  Claim C7. \<open>convert_relative_to_abs_positions\<close> raises \<open>IndexError\<close> on the empty window
  sequence, and \<open>process_read\<close> does call it on the empty sequence: a read whose decoded span
  is smaller than the window size (one BrdU call at offset 1, window size 100), and a read
  with empty tags, both make \<open>process_read\<close> raise that \<open>IndexError\<close>.
\<close>

theorem process_read_empty_windows:
  "convert_relative_to_abs_positions reference_name reference_start reference_end is_reverse []
     = Inl IndexError \<and>
   parse_ml_mm ''N+b?,0'' [255] = Inr [(1, \<lparr>p_BrdU = 1, p_EdU = 0, p_None = 0\<rparr>)] \<and>
   compute_sliding_windows [(1, \<lparr>p_BrdU = 1, p_EdU = 0, p_None = 0\<rparr>)] 100 10 = Inr [] \<and>
   process_read (Some \<lparr>rd_reference_name = ''chr1'', rd_reference_start = 1000,
                        rd_reference_end = 2000, rd_is_reverse = False, rd_mm_tag = ''N+b?,0'',
                        rd_ml_tag = [255], rd_window_size = 100, rd_step_size = 10,
                        rd_read_name = ''read1''\<rparr>) = Inl IndexError \<and>
   process_read (Some \<lparr>rd_reference_name = ''chr1'', rd_reference_start = 1000,
                        rd_reference_end = 2000, rd_is_reverse = False, rd_mm_tag = [],
                        rd_ml_tag = [], rd_window_size = 100, rd_step_size = 10,
                        rd_read_name = ''read2''\<rparr>) = Inl IndexError"
proof -
  have c: "convert_relative_to_abs_positions reference_name reference_start reference_end
             is_reverse [] = Inl IndexError"
    for reference_name reference_start reference_end is_reverse
    by (simp add: convert_relative_to_abs_positions_def)
  have p: "parse_ml_mm ''N+b?,0'' [255] = Inr [(1, \<lparr>p_BrdU = 1, p_EdU = 0, p_None = 0\<rparr>)]"
    by (simp add: decoder_eval)
  have p0: "parse_ml_mm [] [] = Inr []"
    by (simp add: decoder_eval)
  have w: "compute_sliding_windows [(1, \<lparr>p_BrdU = 1, p_EdU = 0, p_None = 0\<rparr>)] 100 10 = Inr []"
    by (simp add: window_eval)
  have w0: "compute_sliding_windows [] 100 10 = Inr []"
    by (simp add: window_eval)
  show ?thesis
    by (simp add: process_read_def c p p0 w w0)
qed

section \<open>Properties of groups of an unknown kind\<close>

lemma spec_channel_known:
  assumes "known_kind k"
  shows "spec_channel k (filter (\<lambda>c. known_kind (fst (fst c))) calls) pos = spec_channel k calls pos"
proof -
  have "filter (\<lambda>c. fst (fst c) = k \<and> snd (fst c) = pos) (filter (\<lambda>c. known_kind (fst (fst c))) calls)
        = filter (\<lambda>c. fst (fst c) = k \<and> snd (fst c) = pos) calls"
    using assms by (auto intro: filter_cong)
  then show ?thesis
    by (simp only: spec_channel_def)
qed

lemma spec_channel_zero:
  assumes "known_kind k"
    and "pos \<notin> spec_recorded (filter (\<lambda>c. known_kind (fst (fst c))) calls)"
  shows "spec_channel k calls pos = 0"
proof -
  have "filter (\<lambda>c. fst (fst c) = k \<and> snd (fst c) = pos) calls = []"
    using assms by (auto simp: filter_empty_conv spec_recorded_def image_iff) blast
  then show ?thesis
    by (simp add: spec_channel_def)
qed

lemma spec_recorded_split:
  "spec_recorded calls =
     spec_recorded (filter (\<lambda>c. known_kind (fst (fst c))) calls) \<union>
     spec_recorded (filter (\<lambda>c. \<not> known_kind (fst (fst c))) calls)"
  by (auto simp: spec_recorded_def)

lemma spec_decode_known:
  "spec_decode calls pos =
     (case spec_decode (filter (\<lambda>c. known_kind (fst (fst c))) calls) pos of
        Some e \<Rightarrow> Some e
      | None \<Rightarrow>
          if pos \<in> spec_recorded (filter (\<lambda>c. \<not> known_kind (fst (fst c))) calls)
          then Some \<lparr>p_BrdU = 0, p_EdU = 0, p_None = 1\<rparr> else None)"
proof (cases "pos \<in> spec_recorded (filter (\<lambda>c. known_kind (fst (fst c))) calls)")
  case True
  then have "pos \<in> spec_recorded calls"
    using spec_recorded_split [of calls] by simp
  moreover have "spec_channel ''N+b?'' (filter (\<lambda>c. known_kind (fst (fst c))) calls) pos
                   = spec_channel ''N+b?'' calls pos"
    by (rule spec_channel_known) (simp add: known_kind_def)
  moreover have "spec_channel ''N+e?'' (filter (\<lambda>c. known_kind (fst (fst c))) calls) pos
                   = spec_channel ''N+e?'' calls pos"
    by (rule spec_channel_known) (simp add: known_kind_def)
  ultimately show ?thesis
    using True by (simp add: spec_decode_def)
next
  case False
  have "spec_channel ''N+b?'' calls pos = 0"
    using False by (intro spec_channel_zero) (simp_all add: known_kind_def)
  moreover have "spec_channel ''N+e?'' calls pos = 0"
    using False by (intro spec_channel_zero) (simp_all add: known_kind_def)
  ultimately have z: "spec_channel ''N+b?'' calls pos = 0" "spec_channel ''N+e?'' calls pos = 0"
    by simp_all
  have "pos \<in> spec_recorded calls \<longleftrightarrow>
        pos \<in> spec_recorded (filter (\<lambda>c. \<not> known_kind (fst (fst c))) calls)"
    using False spec_recorded_split [of calls] by simp
  then show ?thesis
    using False z by (simp add: spec_decode_def)
qed

lemma spec_channel_nonneg: "0 \<le> spec_channel k calls pos"
  by (simp add: spec_channel_alt)

lemma length_known_bytes:
  "sum_list (map (\<lambda>g. length (snd g)) gs) \<le> length ml \<Longrightarrow>
   length (known_bytes gs ml) =
     sum_list (map (\<lambda>g. length (snd g)) (filter (\<lambda>g. known_kind (fst g)) gs))"
  by (induction gs arbitrary: ml) auto

lemma filter_zip_group_calls:
  "filter (\<lambda>c. known_kind (fst (fst c))) (zip (spec_group_calls g) bs) =
     (if known_kind (fst g) then zip (spec_group_calls g) bs else [])"
proof -
  have "\<forall>c \<in> set (zip (spec_group_calls g) bs). fst (fst c) = fst g"
    by (auto simp: spec_group_calls_def dest!: set_zip_leftD)
  then show ?thesis
    by (auto simp: filter_empty_conv filter_id_conv)
qed

lemma zip_known_bytes:
  "sum_list (map (\<lambda>g. length (snd g)) gs) \<le> length ml \<Longrightarrow>
   zip (spec_calls (tag_groups (filter (\<lambda>g. known_kind (fst g)) gs))) (known_bytes gs ml) =
     filter (\<lambda>c. known_kind (fst (fst c))) (zip (spec_calls (tag_groups gs)) ml)"
proof (induction gs arbitrary: ml)
  case Nil
  then show ?case by (simp add: tag_groups_def spec_calls_def)
next
  case (Cons g gs)
  define n where "n = length (snd g)"
  define g' where "g' = (fst g, map int (snd g))"
  have len: "length (spec_group_calls g') = n"
    by (simp add: length_spec_group_calls g'_def n_def)
  have n: "n \<le> length ml" and rest: "sum_list (map (\<lambda>g. length (snd g)) gs) \<le> length (drop n ml)"
    using Cons.prems by (simp_all add: n_def)
  have tg: "tag_groups (g # gs) = g' # tag_groups gs"
    by (simp add: tag_groups_def g'_def)
  have z: "zip (spec_calls (tag_groups (g # gs))) ml =
           zip (spec_group_calls g') (take n ml) @ zip (spec_calls (tag_groups gs)) (drop n ml)"
    unfolding tg spec_calls_Cons using len by (simp add: zip_append1)
  have ih: "zip (spec_calls (tag_groups (filter (\<lambda>g. known_kind (fst g)) gs))) (known_bytes gs (drop n ml)) =
            filter (\<lambda>c. known_kind (fst (fst c))) (zip (spec_calls (tag_groups gs)) (drop n ml))"
    using Cons.IH [OF rest] .
  show ?case
  proof (cases "known_kind (fst g)")
    case True
    have "zip (spec_calls (tag_groups (filter (\<lambda>g. known_kind (fst g)) (g # gs)))) (known_bytes (g # gs) ml)
          = zip (spec_group_calls g' @ spec_calls (tag_groups (filter (\<lambda>g. known_kind (fst g)) gs)))
              (take n ml @ known_bytes gs (drop n ml))"
      using True by (simp add: tag_groups_def spec_calls_Cons g'_def n_def)
    also have "\<dots> = zip (spec_group_calls g') (take n ml)
                    @ zip (spec_calls (tag_groups (filter (\<lambda>g. known_kind (fst g)) gs)))
                        (known_bytes gs (drop n ml))"
      using len n by (intro zip_append) simp
    finally show ?thesis
      using True by (simp add: z ih filter_zip_group_calls g'_def)
  next
    case False
    then have "known_bytes (g # gs) ml = known_bytes gs (drop n ml)"
      by (simp add: n_def)
    then show ?thesis
      using False by (simp add: z ih filter_zip_group_calls g'_def)
  qed
qed

lemma unknown_positions_recorded:
  assumes "length calls \<le> length ml"
  shows "spec_recorded (filter (\<lambda>c. \<not> known_kind (fst (fst c))) (zip calls ml)) =
           snd ` set (filter (\<lambda>c. \<not> known_kind (fst c)) calls)"
proof -
  have "map fst (filter (\<lambda>c. \<not> known_kind (fst (fst c))) (zip calls ml)) =
          filter (\<lambda>c. \<not> known_kind (fst c)) (map fst (zip calls ml))"
    by (simp add: filter_map comp_def)
  also have "map fst (zip calls ml) = calls"
    using assms by (simp add: map_fst_zip_take)
  finally have "fst ` set (filter (\<lambda>c. \<not> known_kind (fst (fst c))) (zip calls ml)) =
                  set (filter (\<lambda>c. \<not> known_kind (fst c)) calls)"
    by (metis set_map)
  then show ?thesis
    by (simp add: spec_recorded_def)
qed

lemma range_up_upto: "range_up start stop 1 = [start..stop - 1]"
proof (induction start stop "1 :: int" rule: range_up.induct)
  case (1 start stop)
  show ?case
  proof (cases "start < stop")
    case True
    then have "range_up start stop 1 = start # range_up (start + 1) stop 1"
      by (simp add: range_up_Cons)
    also have "range_up (start + 1) stop 1 = [start + 1..stop - 1]"
      using 1 True by simp
    finally show ?thesis
      using True by (simp add: upto_rec1 [of start])
  next
    case False
    then show ?thesis by (simp add: range_up_Nil)
  qed
qed

lemma map_filter_extend:
  assumes "\<And>pos. f pos = (case f' pos of Some e \<Rightarrow> Some e
                           | None \<Rightarrow> if pos \<in> U then Some z else None)"
    and "h z = (0 :: real)"
  shows "sum_list (map h (List.map_filter f xs)) = sum_list (map h (List.map_filter f' xs))"
    and "length (List.map_filter f xs) =
           length (List.map_filter f' xs) + length (filter (\<lambda>pos. pos \<in> U \<and> f' pos = None) xs)"
proof (induction xs)
  case Nil
  show "sum_list (map h (List.map_filter f [])) = sum_list (map h (List.map_filter f' []))"
    by simp
  show "length (List.map_filter f []) =
          length (List.map_filter f' []) + length (filter (\<lambda>pos. pos \<in> U \<and> f' pos = None) [])"
    by simp
next
  case (Cons x xs)
  show "sum_list (map h (List.map_filter f (x # xs))) = sum_list (map h (List.map_filter f' (x # xs)))"
    using Cons assms(2) by (cases "f' x") (simp_all add: assms(1) [of x])
  show "length (List.map_filter f (x # xs)) =
          length (List.map_filter f' (x # xs))
            + length (filter (\<lambda>pos. pos \<in> U \<and> f' pos = None) (x # xs))"
    using Cons by (cases "f' x") (simp_all add: assms(1) [of x])
qed

lemma sum_list_map_filter_nonneg:
  assumes "\<And>x e. f x = Some e \<Longrightarrow> 0 \<le> h e"
  shows "(0 :: real) \<le> sum_list (map h (List.map_filter f xs))"
  using assms by (induction xs) (auto split: option.splits)

lemma freq_compare:
  fixes b :: real
  assumes "0 \<le> b" and "0 < n'"
  shows "b / real (n' + x) \<le> b / real n'"
    and "b / real (n' + x) < b / real n' \<longleftrightarrow> 0 < b / real n' \<and> 0 < x"
proof -
  show "b / real (n' + x) \<le> b / real n'"
    using assms by (intro divide_left_mono) auto
  show "b / real (n' + x) < b / real n' \<longleftrightarrow> 0 < b / real n' \<and> 0 < x"
  proof (cases "0 < b \<and> 0 < x")
    case True
    then have "b / real (n' + x) < b / real n'"
      using assms by (intro divide_strict_left_mono) auto
    then show ?thesis using True assms by simp
  next
    case False
    then have "b = 0 \<or> x = 0"
      using assms by auto
    then show ?thesis using assms by (auto simp: zero_less_divide_iff)
  qed
qed


lemma window_sums_extend:
  assumes rel: "\<And>pos. map_of d pos =
                  (case map_of d' pos of Some e \<Rightarrow> Some e
                   | None \<Rightarrow> if pos \<in> U then Some \<lparr>p_BrdU = 0, p_EdU = 0, p_None = 1\<rparr> else None)"
  shows "fst (window_sums d s e) = fst (window_sums d' s e)"
    and "fst (snd (window_sums d s e)) = fst (snd (window_sums d' s e))"
    and "snd (snd (window_sums d s e)) =
           snd (snd (window_sums d' s e))
             + card {pos. s \<le> pos \<and> pos < e \<and> pos \<in> U \<and> map_of d' pos = None}"
proof -
  let ?xs = "range_up s e 1"
  let ?z = "\<lparr>p_BrdU = 0, p_EdU = 0, p_None = 1\<rparr>"
  have "distinct ?xs"
    by (simp add: range_up_upto)
  then have "length (filter (\<lambda>pos. pos \<in> U \<and> map_of d' pos = None) ?xs) =
               card ({pos. pos \<in> U \<and> map_of d' pos = None} \<inter> set ?xs)"
    by (rule distinct_length_filter)
  also have "{pos. pos \<in> U \<and> map_of d' pos = None} \<inter> set ?xs =
               {pos. s \<le> pos \<and> pos < e \<and> pos \<in> U \<and> map_of d' pos = None}"
    by (auto simp: range_up_set)
  finally have c: "length (filter (\<lambda>pos. pos \<in> U \<and> map_of d' pos = None) ?xs) =
                     card {pos. s \<le> pos \<and> pos < e \<and> pos \<in> U \<and> map_of d' pos = None}" .
  show "fst (window_sums d s e) = fst (window_sums d' s e)"
    using map_filter_extend(1) [where f = "map_of d" and f' = "map_of d'" and U = U and z = ?z
        and h = p_BrdU and xs = ?xs] rel
    by (simp add: window_sums_eq)
  show "fst (snd (window_sums d s e)) = fst (snd (window_sums d' s e))"
    using map_filter_extend(1) [where f = "map_of d" and f' = "map_of d'" and U = U and z = ?z
        and h = p_EdU and xs = ?xs] rel
    by (simp add: window_sums_eq)
  show "snd (snd (window_sums d s e)) =
          snd (snd (window_sums d' s e))
            + card {pos. s \<le> pos \<and> pos < e \<and> pos \<in> U \<and> map_of d' pos = None}"
    using map_filter_extend(2) [where f = "map_of d" and f' = "map_of d'" and U = U and z = ?z
        and h = p_BrdU and xs = ?xs] rel c
    by (simp add: window_sums_eq)
qed

lemma window_at_extend:
  assumes rel: "\<And>pos. map_of d pos =
                  (case map_of d' pos of Some e \<Rightarrow> Some e
                   | None \<Rightarrow> if pos \<in> U then Some \<lparr>p_BrdU = 0, p_EdU = 0, p_None = 1\<rparr> else None)"
    and nonneg: "\<forall>pos e. map_of d' pos = Some e \<longrightarrow> 0 \<le> p_BrdU e \<and> 0 \<le> p_EdU e"
  shows "fst (snd (snd (window_at d w s))) \<le> fst (snd (snd (window_at d' w s)))"
    and "snd (snd (snd (window_at d w s))) \<le> snd (snd (snd (window_at d' w s)))"
    and "fst (snd (snd (window_at d w s))) < fst (snd (snd (window_at d' w s))) \<longleftrightarrow>
           0 < fst (snd (snd (window_at d' w s))) \<and>
           (\<exists>pos. s \<le> pos \<and> pos < s + w \<and> pos \<in> U \<and> map_of d' pos = None)"
    and "snd (snd (snd (window_at d w s))) < snd (snd (snd (window_at d' w s))) \<longleftrightarrow>
           0 < snd (snd (snd (window_at d' w s))) \<and>
           (\<exists>pos. s \<le> pos \<and> pos < s + w \<and> pos \<in> U \<and> map_of d' pos = None)"
proof -
  let ?xs = "range_up s (s + w) 1"
  let ?z = "\<lparr>p_BrdU = 0, p_EdU = 0, p_None = 1\<rparr>"
  define b where "b = sum_list (map p_BrdU (List.map_filter (map_of d') ?xs))"
  define e where "e = sum_list (map p_EdU (List.map_filter (map_of d') ?xs))"
  define n' where "n' = length (List.map_filter (map_of d') ?xs)"
  define x where "x = length (filter (\<lambda>pos. pos \<in> U \<and> map_of d' pos = None) ?xs)"
  have wd': "window_at d' w s =
               (if 0 < n' then (s, s + w, b / real n', e / real n') else (s, s + w, 0, 0))"
    by (simp add: window_at_def Let_def window_sums_eq b_def e_def n'_def)
  have sb: "sum_list (map p_BrdU (List.map_filter (map_of d) ?xs)) = b"
    using map_filter_extend(1) [where f = "map_of d" and f' = "map_of d'" and U = U and z = ?z
        and h = p_BrdU and xs = ?xs] rel
    by (simp add: b_def)
  have se: "sum_list (map p_EdU (List.map_filter (map_of d) ?xs)) = e"
    using map_filter_extend(1) [where f = "map_of d" and f' = "map_of d'" and U = U and z = ?z
        and h = p_EdU and xs = ?xs] rel
    by (simp add: e_def)
  have sn: "length (List.map_filter (map_of d) ?xs) = n' + x"
    using map_filter_extend(2) [where f = "map_of d" and f' = "map_of d'" and U = U and z = ?z
        and h = p_BrdU and xs = ?xs] rel
    by (simp add: n'_def x_def)
  have wd: "window_at d w s =
              (if 0 < n' + x then (s, s + w, b / real (n' + x), e / real (n' + x))
               else (s, s + w, 0, 0))"
  proof -
    have "window_sums d s (s + w) = (b, e, n' + x)"
      by (simp only: window_sums_eq sb se sn)
    then show ?thesis
      by (simp add: window_at_def Let_def)
  qed
  have x: "0 < x \<longleftrightarrow> (\<exists>pos. s \<le> pos \<and> pos < s + w \<and> pos \<in> U \<and> map_of d' pos = None)"
    unfolding x_def length_greater_0_conv by (auto simp: filter_empty_conv range_up_set)
  have b0: "0 \<le> b"
    unfolding b_def using nonneg by (intro sum_list_map_filter_nonneg) auto
  have e0: "0 \<le> e"
    unfolding e_def using nonneg by (intro sum_list_map_filter_nonneg) auto
  have z: "b = 0 \<and> e = 0" if "n' = 0"
    using that by (simp add: b_def e_def n'_def)
  show "fst (snd (snd (window_at d w s))) \<le> fst (snd (snd (window_at d' w s)))"
    using freq_compare(1) [OF b0, of n' x] z by (cases "0 < n'") (simp_all add: wd wd')
  show "snd (snd (snd (window_at d w s))) \<le> snd (snd (snd (window_at d' w s)))"
    using freq_compare(1) [OF e0, of n' x] z by (cases "0 < n'") (simp_all add: wd wd')
  show "fst (snd (snd (window_at d w s))) < fst (snd (snd (window_at d' w s))) \<longleftrightarrow>
          0 < fst (snd (snd (window_at d' w s))) \<and>
          (\<exists>pos. s \<le> pos \<and> pos < s + w \<and> pos \<in> U \<and> map_of d' pos = None)"
    using freq_compare(2) [OF b0, of n' x] z unfolding x [symmetric]
    by (cases "0 < n'") (simp_all add: wd wd')
  show "snd (snd (snd (window_at d w s))) < snd (snd (snd (window_at d' w s))) \<longleftrightarrow>
          0 < snd (snd (snd (window_at d' w s))) \<and>
          (\<exists>pos. s \<le> pos \<and> pos < s + w \<and> pos \<in> U \<and> map_of d' pos = None)"
    using freq_compare(2) [OF e0, of n' x] z unfolding x [symmetric]
    by (cases "0 < n'") (simp_all add: wd wd')
qed

lemma decode_unknown_groups:
  assumes "list_all (\<lambda>g. valid_kind (fst g)) gs"
    and "sum_list (map (\<lambda>g. length (snd g)) gs) \<le> length ml"
  defines "calls \<equiv> zip (spec_calls (tag_groups gs)) ml"
  shows "parse_ml_mm (tag_string gs) ml = Inr (recompute_none (apply_calls [] calls))"
    and "parse_ml_mm (tag_string (filter (\<lambda>g. known_kind (fst g)) gs)) (known_bytes gs ml) =
           Inr (recompute_none (apply_calls [] (filter (\<lambda>c. known_kind (fst (fst c))) calls)))"
    and "spec_recorded (filter (\<lambda>c. \<not> known_kind (fst (fst c))) calls) = unknown_positions gs"
proof -
  have g: "mm_groups (tag_string gs) = Inr (tag_groups gs)"
    using assms(1) by (simp add: mm_groups_tag_string list_all_iff)
  then show "parse_ml_mm (tag_string gs) ml = Inr (recompute_none (apply_calls [] calls))"
    using assms(2) by (simp add: parse_ml_mm_eq position_count_tag_groups calls_def)
  have "list_all (\<lambda>g. valid_kind (fst g)) (filter (\<lambda>g. known_kind (fst g)) gs)"
    using assms(1) by (simp add: list_all_iff)
  then have g': "mm_groups (tag_string (filter (\<lambda>g. known_kind (fst g)) gs)) =
                   Inr (tag_groups (filter (\<lambda>g. known_kind (fst g)) gs))"
    by (simp add: mm_groups_tag_string list_all_iff)
  have "position_count (tag_groups (filter (\<lambda>g. known_kind (fst g)) gs)) = length (known_bytes gs ml)"
    using assms(2) by (simp add: position_count_tag_groups length_known_bytes)
  then show "parse_ml_mm (tag_string (filter (\<lambda>g. known_kind (fst g)) gs)) (known_bytes gs ml) =
           Inr (recompute_none (apply_calls [] (filter (\<lambda>c. known_kind (fst (fst c))) calls)))"
    using g' assms(2) by (simp add: parse_ml_mm_eq zip_known_bytes calls_def)
  have "length (spec_calls (tag_groups gs)) \<le> length ml"
    using assms(2) by (simp add: length_spec_calls position_count_tag_groups)
  then show "spec_recorded (filter (\<lambda>c. \<not> known_kind (fst (fst c))) calls) = unknown_positions gs"
    unfolding calls_def unknown_positions_def by (rule unknown_positions_recorded)
qed

text \<open>
  Claim C9, amended. For the tag string of a list of groups with valid kinds and at least as
  many bytes as positions: every offset that a group of a kind other than \<open>N+b?\<close> and \<open>N+e?\<close>
  records is in the decoded dictionary, with BrdU = 0, EdU = 0 and None = 1 unless a group
  of one of the two kinds records it too; every other entry is the entry of the decoding
  without the unknown groups (their groups and their bytes left out). In every window the
  two channel sums are those of the decoding without the unknown groups, and \<open>t_count\<close> is
  larger by the number of offsets in the window that only unknown groups record. So each
  channel frequency is at most the frequency without the unknown groups, and it is strictly
  lower exactly when the frequency without them is positive and the window holds such an
  offset.
\<close>

theorem unknown_kind_positions:
  assumes "list_all (\<lambda>g. valid_kind (fst g)) gs"
    and "sum_list (map (\<lambda>g. length (snd g)) gs) \<le> length ml"
  shows "\<exists>d d'.
     parse_ml_mm (tag_string gs) ml = Inr d \<and>
     parse_ml_mm (tag_string (filter (\<lambda>g. known_kind (fst g)) gs)) (known_bytes gs ml) = Inr d' \<and>
     (\<forall>pos. map_of d pos =
        (case map_of d' pos of
           Some e \<Rightarrow> Some e
         | None \<Rightarrow> if pos \<in> unknown_positions gs
                    then Some \<lparr>p_BrdU = 0, p_EdU = 0, p_None = 1\<rparr> else None)) \<and>
     (\<forall>window_size window_start.
        fst (window_sums d window_start (window_start + window_size)) =
          fst (window_sums d' window_start (window_start + window_size)) \<and>
        fst (snd (window_sums d window_start (window_start + window_size))) =
          fst (snd (window_sums d' window_start (window_start + window_size))) \<and>
        snd (snd (window_sums d window_start (window_start + window_size))) =
          snd (snd (window_sums d' window_start (window_start + window_size)))
            + card {pos. window_start \<le> pos \<and> pos < window_start + window_size \<and>
                         pos \<in> unknown_positions gs \<and> map_of d' pos = None} \<and>
        fst (snd (snd (window_at d window_size window_start)))
          \<le> fst (snd (snd (window_at d' window_size window_start))) \<and>
        snd (snd (snd (window_at d window_size window_start)))
          \<le> snd (snd (snd (window_at d' window_size window_start))) \<and>
        (fst (snd (snd (window_at d window_size window_start)))
           < fst (snd (snd (window_at d' window_size window_start))) \<longleftrightarrow>
         0 < fst (snd (snd (window_at d' window_size window_start))) \<and>
         (\<exists>pos. window_start \<le> pos \<and> pos < window_start + window_size \<and>
                pos \<in> unknown_positions gs \<and> map_of d' pos = None)) \<and>
        (snd (snd (snd (window_at d window_size window_start)))
           < snd (snd (snd (window_at d' window_size window_start))) \<longleftrightarrow>
         0 < snd (snd (snd (window_at d' window_size window_start))) \<and>
         (\<exists>pos. window_start \<le> pos \<and> pos < window_start + window_size \<and>
                pos \<in> unknown_positions gs \<and> map_of d' pos = None)))"
proof -
  define calls where "calls = zip (spec_calls (tag_groups gs)) ml"
  define d where "d = recompute_none (apply_calls [] calls)"
  define d' where "d' = recompute_none (apply_calls [] (filter (\<lambda>c. known_kind (fst (fst c))) calls))"
  note dec = decode_unknown_groups [OF assms, folded calls_def]
  have p: "parse_ml_mm (tag_string gs) ml = Inr d"
    using dec(1) by (simp add: d_def)
  have p': "parse_ml_mm (tag_string (filter (\<lambda>g. known_kind (fst g)) gs)) (known_bytes gs ml) = Inr d'"
    using dec(2) by (simp add: d'_def)
  have md: "map_of d = spec_decode calls"
    by (simp add: d_def map_of_decoded)
  have md': "map_of d' = spec_decode (filter (\<lambda>c. known_kind (fst (fst c))) calls)"
    by (simp add: d'_def map_of_decoded)
  have rel: "map_of d pos =
               (case map_of d' pos of
                  Some e \<Rightarrow> Some e
                | None \<Rightarrow> if pos \<in> unknown_positions gs
                           then Some \<lparr>p_BrdU = 0, p_EdU = 0, p_None = 1\<rparr> else None)" for pos
    unfolding md md' dec(3) [symmetric] by (rule spec_decode_known)
  have nonneg: "\<forall>pos e. map_of d' pos = Some e \<longrightarrow> 0 \<le> p_BrdU e \<and> 0 \<le> p_EdU e"
    unfolding md' by (auto simp: spec_decode_def spec_channel_nonneg split: if_splits)
  note ws = window_sums_extend [where d = d and d' = d' and U = "unknown_positions gs", OF rel]
  note wa = window_at_extend [where d = d and d' = d' and U = "unknown_positions gs", OF rel nonneg]
  show ?thesis
    by (rule exI [of _ d], rule exI [of _ d'], intro conjI allI) (rule p p' rel ws wa)+
qed


theorem unknown_kind_positions_witness:
  "list_all (\<lambda>g. valid_kind (fst g)) [(''N+b?'', [0, 3]), (''N+x?'', [1])] \<and>
   sum_list (map (\<lambda>g. length (snd g)) [(''N+b?'', [0, 3 :: nat]), (''N+x?'', [1])])
     \<le> length [255, 255, 7 :: nat] \<and>
   tag_string [(''N+b?'', [0, 3]), (''N+x?'', [1])] = ''N+b?,0,3;N+x?,1;'' \<and>
   tag_string (filter (\<lambda>g. known_kind (fst g)) [(''N+b?'', [0, 3]), (''N+x?'', [1])]) = ''N+b?,0,3;'' \<and>
   known_bytes [(''N+b?'', [0, 3]), (''N+x?'', [1])] [255, 255, 7] = [255, 255] \<and>
   2 \<in> unknown_positions [(''N+b?'', [0, 3]), (''N+x?'', [1])] \<and>
   (\<exists>d d'. parse_ml_mm ''N+b?,0,3;N+x?,1;'' [255, 255, 7] = Inr d \<and>
           parse_ml_mm ''N+b?,0,3;'' [255, 255] = Inr d' \<and>
           map_of d' 2 = None \<and>
           map_of d 2 = Some \<lparr>p_BrdU = 0, p_EdU = 0, p_None = 1\<rparr> \<and>
           fst (snd (snd (window_at d 3 1))) < fst (snd (snd (window_at d' 3 1))) \<and>
           \<not> snd (snd (snd (window_at d 3 1))) < snd (snd (snd (window_at d' 3 1))))"
proof -
  let ?gs = "[(''N+b?'', [0, 3 :: nat]), (''N+x?'', [1])]"
  let ?ml = "[255, 255, 7 :: nat]"
  let ?d' = "[(1 :: int, \<lparr>p_BrdU = 1, p_EdU = 0, p_None = 0\<rparr>),
              (5, \<lparr>p_BrdU = 1, p_EdU = 0, p_None = 0\<rparr>)]"
  have v: "list_all (\<lambda>g. valid_kind (fst g)) ?gs"
    by (simp add: valid_kind_def)
  have n: "sum_list (map (\<lambda>g. length (snd g)) ?gs) \<le> length ?ml"
    by simp
  have t: "tag_string ?gs = ''N+b?,0,3;N+x?,1;''"
    by (simp add: render_eval)
  have t': "tag_string (filter (\<lambda>g. known_kind (fst g)) ?gs) = ''N+b?,0,3;''"
    by (simp add: render_eval known_kind_def)
  have kb: "known_bytes ?gs ?ml = [255, 255]"
    by (simp add: known_kind_def)
  have u: "2 \<in> unknown_positions ?gs"
    by (simp add: unknown_positions_def tag_groups_def spec_calls_def spec_group_calls_def
        known_kind_def)
  have pd': "parse_ml_mm ''N+b?,0,3;'' [255, 255] = Inr ?d'"
    by (simp add: decoder_eval)
  have wa': "window_at ?d' 3 1 = (1, 4, 1, 0)"
    by (simp add: window_eval)
  from unknown_kind_positions [OF v n] obtain d d' where
    p: "parse_ml_mm (tag_string ?gs) ?ml = Inr d" and
    p': "parse_ml_mm (tag_string (filter (\<lambda>g. known_kind (fst g)) ?gs)) (known_bytes ?gs ?ml) = Inr d'" and
    rel: "\<forall>pos. map_of d pos =
            (case map_of d' pos of
               Some e \<Rightarrow> Some e
             | None \<Rightarrow> if pos \<in> unknown_positions ?gs
                        then Some \<lparr>p_BrdU = 0, p_EdU = 0, p_None = 1\<rparr> else None)" and
    b: "\<forall>window_size window_start.
          fst (snd (snd (window_at d window_size window_start)))
            < fst (snd (snd (window_at d' window_size window_start))) \<longleftrightarrow>
          0 < fst (snd (snd (window_at d' window_size window_start))) \<and>
          (\<exists>pos. window_start \<le> pos \<and> pos < window_start + window_size \<and>
                 pos \<in> unknown_positions ?gs \<and> map_of d' pos = None)" and
    e: "\<forall>window_size window_start.
          snd (snd (snd (window_at d window_size window_start)))
            < snd (snd (snd (window_at d' window_size window_start))) \<longleftrightarrow>
          0 < snd (snd (snd (window_at d' window_size window_start))) \<and>
          (\<exists>pos. window_start \<le> pos \<and> pos < window_start + window_size \<and>
                 pos \<in> unknown_positions ?gs \<and> map_of d' pos = None)"
    by blast
  have d': "d' = ?d'"
    using p' [unfolded t' kb] pd' by simp
  have m': "map_of d' 2 = None"
    by (simp add: d')
  have m: "map_of d 2 = Some \<lparr>p_BrdU = 0, p_EdU = 0, p_None = 1\<rparr>"
    using rel [rule_format, of 2] u m' by simp
  have "\<exists>pos. (1 :: int) \<le> pos \<and> pos < 1 + 3 \<and> pos \<in> unknown_positions ?gs \<and> map_of d' pos = None"
    using u m' by (intro exI [of _ 2]) simp
  then have lb: "fst (snd (snd (window_at d 3 1))) < fst (snd (snd (window_at d' 3 1)))"
    using b [rule_format, of 3 1] by (simp add: d' wa')
  have le: "\<not> snd (snd (snd (window_at d 3 1))) < snd (snd (snd (window_at d' 3 1)))"
    using e [rule_format, of 3 1] by (simp add: d' wa')
  have "\<exists>d d'. parse_ml_mm ''N+b?,0,3;N+x?,1;'' [255, 255, 7] = Inr d \<and>
           parse_ml_mm ''N+b?,0,3;'' [255, 255] = Inr d' \<and>
           map_of d' 2 = None \<and>
           map_of d 2 = Some \<lparr>p_BrdU = 0, p_EdU = 0, p_None = 1\<rparr> \<and>
           fst (snd (snd (window_at d 3 1))) < fst (snd (snd (window_at d' 3 1))) \<and>
           \<not> snd (snd (snd (window_at d 3 1))) < snd (snd (snd (window_at d' 3 1)))"
    using p [unfolded t] p' [unfolded t' kb] m m' lb le by blast
  then show ?thesis
    using v n t t' kb u by simp
qed

text \<open>
  The frequencies are not always lowered: with a BrdU group at offsets 1 and 5 and an
  unknown group at offset 2, the window from 1 to 4 covers offset 2 and its EdU frequency
  is 0 with and without the unknown group, and the window from 2 to 5 covers it too and
  both of its frequencies are 0 with and without the group.
\<close>

theorem unknown_kind_not_lowering:
  "parse_ml_mm ''N+b?,0,3;N+x?,1;'' [255, 255, 7] =
     Inr [(1, \<lparr>p_BrdU = 1, p_EdU = 0, p_None = 0\<rparr>), (5, \<lparr>p_BrdU = 1, p_EdU = 0, p_None = 0\<rparr>),
          (2, \<lparr>p_BrdU = 0, p_EdU = 0, p_None = 1\<rparr>)] \<and>
   parse_ml_mm ''N+b?,0,3;'' [255, 255] =
     Inr [(1, \<lparr>p_BrdU = 1, p_EdU = 0, p_None = 0\<rparr>), (5, \<lparr>p_BrdU = 1, p_EdU = 0, p_None = 0\<rparr>)] \<and>
   compute_sliding_windows
     [(1, \<lparr>p_BrdU = 1, p_EdU = 0, p_None = 0\<rparr>), (5, \<lparr>p_BrdU = 1, p_EdU = 0, p_None = 0\<rparr>),
      (2, \<lparr>p_BrdU = 0, p_EdU = 0, p_None = 1\<rparr>)] 3 1 =
     Inr [(1, 4, 1 / 2, 0), (2, 5, 0, 0)] \<and>
   compute_sliding_windows
     [(1, \<lparr>p_BrdU = 1, p_EdU = 0, p_None = 0\<rparr>), (5, \<lparr>p_BrdU = 1, p_EdU = 0, p_None = 0\<rparr>)] 3 1 =
     Inr [(1, 4, 1, 0), (2, 5, 0, 0)]"
  by (simp add: decoder_eval window_eval)

section \<open>Properties of the track aligner\<close>

lemma length_uniform_filter1d: "length (uniform_filter1d a filter_size) = length a"
  by (simp add: uniform_filter1d_def)

lemma length_fillna: "length (fillna v col) = length col"
  by (simp add: fillna_def)

lemma first_min_props:
  assumes "length pre = i" and "best_i < i" and "pre ! best_i = best"
    and "\<forall>j < i. best \<le> pre ! j" and "\<forall>j < best_i. best < pre ! j"
  shows "first_min best best_i i vs < length (pre @ vs) \<and>
         (\<forall>j < length (pre @ vs). (pre @ vs) ! first_min best best_i i vs \<le> (pre @ vs) ! j) \<and>
         (\<forall>j < first_min best best_i i vs.
              (pre @ vs) ! first_min best best_i i vs < (pre @ vs) ! j)"
  using assms
proof (induction vs arbitrary: pre i best best_i)
  case Nil
  then show ?case by auto
next
  case (Cons v vs)
  show ?case
  proof (cases "v < best")
    case True
    have "first_min v i (Suc i) vs < length ((pre @ [v]) @ vs) \<and>
         (\<forall>j < length ((pre @ [v]) @ vs). ((pre @ [v]) @ vs) ! first_min v i (Suc i) vs \<le> ((pre @ [v]) @ vs) ! j) \<and>
         (\<forall>j < first_min v i (Suc i) vs.
              ((pre @ [v]) @ vs) ! first_min v i (Suc i) vs < ((pre @ [v]) @ vs) ! j)"
    proof (rule Cons.IH)
      show "length (pre @ [v]) = Suc i" using Cons.prems(1) by simp
      show "i < Suc i" by simp
      show "(pre @ [v]) ! i = v" using Cons.prems(1) by (auto simp: nth_append)
      show "\<forall>j < Suc i. v \<le> (pre @ [v]) ! j"
        using Cons.prems(1,4) True by (auto simp: nth_append less_Suc_eq)
      show "\<forall>j < i. v < (pre @ [v]) ! j"
        using Cons.prems(1,4) True by (auto simp: nth_append)
    qed
    then show ?thesis using True by simp
  next
    case False
    have "first_min best best_i (Suc i) vs < length ((pre @ [v]) @ vs) \<and>
         (\<forall>j < length ((pre @ [v]) @ vs). ((pre @ [v]) @ vs) ! first_min best best_i (Suc i) vs \<le> ((pre @ [v]) @ vs) ! j) \<and>
         (\<forall>j < first_min best best_i (Suc i) vs.
              ((pre @ [v]) @ vs) ! first_min best best_i (Suc i) vs < ((pre @ [v]) @ vs) ! j)"
    proof (rule Cons.IH)
      show "length (pre @ [v]) = Suc i" using Cons.prems(1) by simp
      show "best_i < Suc i" using Cons.prems(2) by simp
      show "(pre @ [v]) ! best_i = best" using Cons.prems(1,2,3) by (simp add: nth_append)
      show "\<forall>j < Suc i. best \<le> (pre @ [v]) ! j"
        using Cons.prems(1,4) False by (auto simp: nth_append less_Suc_eq)
      show "\<forall>j < best_i. best < (pre @ [v]) ! j"
        using Cons.prems(1,2,5) by (auto simp: nth_append)
    qed
    then show ?thesis using False by simp
  qed
qed

lemma first_max_props:
  assumes "length pre = i" and "best_i < i" and "pre ! best_i = best"
    and "\<forall>j < i. pre ! j \<le> best" and "\<forall>j < best_i. pre ! j < best"
  shows "first_max best best_i i vs < length (pre @ vs) \<and>
         (\<forall>j < length (pre @ vs). (pre @ vs) ! j \<le> (pre @ vs) ! first_max best best_i i vs) \<and>
         (\<forall>j < first_max best best_i i vs.
              (pre @ vs) ! j < (pre @ vs) ! first_max best best_i i vs)"
  using assms
proof (induction vs arbitrary: pre i best best_i)
  case Nil
  then show ?case by auto
next
  case (Cons v vs)
  show ?case
  proof (cases "best < v")
    case True
    have "first_max v i (Suc i) vs < length ((pre @ [v]) @ vs) \<and>
         (\<forall>j < length ((pre @ [v]) @ vs). ((pre @ [v]) @ vs) ! j \<le> ((pre @ [v]) @ vs) ! first_max v i (Suc i) vs) \<and>
         (\<forall>j < first_max v i (Suc i) vs.
              ((pre @ [v]) @ vs) ! j < ((pre @ [v]) @ vs) ! first_max v i (Suc i) vs)"
    proof (rule Cons.IH)
      show "length (pre @ [v]) = Suc i" using Cons.prems(1) by simp
      show "i < Suc i" by simp
      show "(pre @ [v]) ! i = v" using Cons.prems(1) by (auto simp: nth_append)
      show "\<forall>j < Suc i. (pre @ [v]) ! j \<le> v"
        using Cons.prems(1,4) True by (auto simp: nth_append less_Suc_eq)
      show "\<forall>j < i. (pre @ [v]) ! j < v"
        using Cons.prems(1,4) True by (auto simp: nth_append)
    qed
    then show ?thesis using True by simp
  next
    case False
    have "first_max best best_i (Suc i) vs < length ((pre @ [v]) @ vs) \<and>
         (\<forall>j < length ((pre @ [v]) @ vs). ((pre @ [v]) @ vs) ! j \<le> ((pre @ [v]) @ vs) ! first_max best best_i (Suc i) vs) \<and>
         (\<forall>j < first_max best best_i (Suc i) vs.
              ((pre @ [v]) @ vs) ! j < ((pre @ [v]) @ vs) ! first_max best best_i (Suc i) vs)"
    proof (rule Cons.IH)
      show "length (pre @ [v]) = Suc i" using Cons.prems(1) by simp
      show "best_i < Suc i" using Cons.prems(2) by simp
      show "(pre @ [v]) ! best_i = best" using Cons.prems(1,2,3) by (simp add: nth_append)
      show "\<forall>j < Suc i. (pre @ [v]) ! j \<le> best"
        using Cons.prems(1,4) False by (auto simp: nth_append less_Suc_eq)
      show "\<forall>j < best_i. (pre @ [v]) ! j < best"
        using Cons.prems(1,2,5) by (auto simp: nth_append)
    qed
    then show ?thesis using False by simp
  qed
qed

lemma idxmin_props:
  assumes "a \<noteq> []"
  shows "\<exists>i. idxmin a = Inr i \<and> i < length a \<and> (\<forall>j < length a. a ! i \<le> a ! j) \<and>
             (\<forall>j < i. a ! i < a ! j)"
proof -
  obtain v vs where a: "a = v # vs"
    using assms by (cases a) auto
  have "first_min v 0 1 vs < length ([v] @ vs) \<and>
        (\<forall>j < length ([v] @ vs). ([v] @ vs) ! first_min v 0 1 vs \<le> ([v] @ vs) ! j) \<and>
        (\<forall>j < first_min v 0 1 vs. ([v] @ vs) ! first_min v 0 1 vs < ([v] @ vs) ! j)"
    by (rule first_min_props) simp_all
  then show ?thesis
    by (simp add: idxmin_def a)
qed

lemma idxmax_props:
  assumes "a \<noteq> []"
  shows "\<exists>i. idxmax a = Inr i \<and> i < length a \<and> (\<forall>j < length a. a ! j \<le> a ! i) \<and>
             (\<forall>j < i. a ! j < a ! i)"
proof -
  obtain v vs where a: "a = v # vs"
    using assms by (cases a) auto
  have "first_max v 0 1 vs < length ([v] @ vs) \<and>
        (\<forall>j < length ([v] @ vs). ([v] @ vs) ! j \<le> ([v] @ vs) ! first_max v 0 1 vs) \<and>
        (\<forall>j < first_max v 0 1 vs. ([v] @ vs) ! j < ([v] @ vs) ! first_max v 0 1 vs)"
    by (rule first_max_props) simp_all
  then show ?thesis
    by (simp add: idxmax_def a)
qed

text \<open>
  Claim C4. For a non-empty paired track and a filter size of at least 1,
  \<open>align_diff_by_minimum\<close> returns a frame. With \<open>imin\<close> and \<open>imax\<close> the first positions of the
  least and of the greatest value of the smoothed diff (the uniform filter of the diff with
  NaN replaced by 0), the column \<open>start\<close> is reversed exactly when the start at \<open>imin\<close> is
  greater than the start at \<open>imax\<close>, and is unchanged otherwise; every other column is
  unchanged; \<open>x\<close> is \<open>start\<close> minus the start at \<open>imin\<close> after the possible reversal, so \<open>x\<close> is 0
  at \<open>imin\<close>.
\<close>

theorem align_diff_by_minimum_aligns:
  assumes "t_diff df \<noteq> []" and "length (t_start df) = length (t_diff df)"
    and "1 \<le> window_size"
  shows "\<exists>df' imin imax.
           align_diff_by_minimum df window_size = Inr df' \<and>
           t_diff_roll df' = uniform_filter1d (fillna 0 (t_diff df)) (nat window_size) \<and>
           length (t_diff_roll df') = length (t_diff df) \<and>
           imin < length (t_diff df) \<and>
           (\<forall>j < length (t_diff df). t_diff_roll df' ! imin \<le> t_diff_roll df' ! j) \<and>
           (\<forall>j < imin. t_diff_roll df' ! imin < t_diff_roll df' ! j) \<and>
           imax < length (t_diff df) \<and>
           (\<forall>j < length (t_diff df). t_diff_roll df' ! j \<le> t_diff_roll df' ! imax) \<and>
           (\<forall>j < imax. t_diff_roll df' ! j < t_diff_roll df' ! imax) \<and>
           t_start df' = (if t_start df ! imin > t_start df ! imax then rev (t_start df)
                          else t_start df) \<and>
           t_chromosome df' = t_chromosome df \<and> t_end df' = t_end df \<and>
           t_BrdU df' = t_BrdU df \<and> t_EdU df' = t_EdU df \<and> t_diff df' = t_diff df \<and>
           t_x df' = map (\<lambda>s. s - t_start df' ! imin) (t_start df') \<and>
           t_x df' ! imin = 0"
proof -
  define roll where "roll = uniform_filter1d (fillna 0 (t_diff df)) (nat window_size)"
  have len: "length roll = length (t_diff df)"
    by (simp add: roll_def length_uniform_filter1d length_fillna)
  then have ne: "roll \<noteq> []"
    using assms(1) by auto
  obtain imin where imin: "idxmin roll = Inr imin" "imin < length roll"
    "\<forall>j < length roll. roll ! imin \<le> roll ! j" "\<forall>j < imin. roll ! imin < roll ! j"
    using idxmin_props [OF ne] by blast
  obtain imax where imax: "idxmax roll = Inr imax" "imax < length roll"
    "\<forall>j < length roll. roll ! j \<le> roll ! imax" "\<forall>j < imax. roll ! j < roll ! imax"
    using idxmax_props [OF ne] by blast
  define start' where
    "start' = (if t_start df ! imin > t_start df ! imax then rev (t_start df) else t_start df)"
  define df' where
    "df' = \<lparr>t_chromosome = t_chromosome df, t_start = start', t_end = t_end df,
            t_BrdU = t_BrdU df, t_EdU = t_EdU df, t_diff = t_diff df,
            t_diff_roll = roll, t_x = map (\<lambda>s. s - start' ! imin) start'\<rparr>"
  have r: "align_diff_by_minimum df window_size = Inr df'"
    using assms(3)
    by (simp add: align_diff_by_minimum_def Let_def roll_def [symmetric] imin(1) imax(1)
        df'_def start'_def)
  have ls: "length start' = length (t_diff df)"
    using assms(2) by (simp add: start'_def)
  have x0: "t_x df' ! imin = 0"
    using imin(2) len ls by (simp add: df'_def)
  show ?thesis
    apply (rule exI [of _ df'], rule exI [of _ imin], rule exI [of _ imax])
    using r len imin imax x0
    apply (simp add: df'_def start'_def roll_def)
    done
qed

section \<open>Properties of the summarizer\<close>

lemma group_values_alt:
  "group_values k rows = map the (filter (\<lambda>d. d \<noteq> None) (map snd (filter (\<lambda>r. fst r = k) rows)))"
  by (induction rows) (auto simp: group_values_def List.map_filter_simps split: option.splits)

text \<open>
  Claim C6. \<open>summarize_combined_tracks\<close> returns one row per distinct \<open>x\<close>, in ascending
  order. In the row of a group, \<open>n\<close> is the number of the group's diffs that are not NaN.
  For \<open>n > 1\<close>: \<open>mean\<close> is their mean, \<open>sd\<close> is not negative and its square times \<open>n - 1\<close> is the
  sum of the squared deviations from the mean, \<open>se = sd / sqrt n\<close>, \<open>ci_lower = mean - 1.96 se\<close>
  and \<open>ci_upper = mean + 1.96 se\<close>. For \<open>n = 1\<close> (and for \<open>n = 0\<close>) \<open>sd\<close>, \<open>se\<close>, \<open>ci_lower\<close> and
  \<open>ci_upper\<close> are NaN, as values of the row.
\<close>

theorem summarize_combined_tracks_stats:
  "sorted (map s_x (summarize_combined_tracks rows)) \<and>
   distinct (map s_x (summarize_combined_tracks rows)) \<and>
   set (map s_x (summarize_combined_tracks rows)) = fst ` set rows \<and>
   (\<forall>r \<in> set (summarize_combined_tracks rows).
      s_n r = length (map the (filter (\<lambda>d. d \<noteq> None)
                         (map snd (filter (\<lambda>row. fst row = s_x r) rows)))) \<and>
      (1 < s_n r \<longrightarrow>
        (\<exists>m sd. s_mean r = Some m \<and> s_sd r = Some sd \<and>
           m * real (s_n r) =
             sum_list (map the (filter (\<lambda>d. d \<noteq> None)
                         (map snd (filter (\<lambda>row. fst row = s_x r) rows)))) \<and>
           0 \<le> sd \<and>
           sd\<^sup>2 * real (s_n r - 1) =
             sum_list (map (\<lambda>v. (v - m)\<^sup>2) (map the (filter (\<lambda>d. d \<noteq> None)
                         (map snd (filter (\<lambda>row. fst row = s_x r) rows))))) \<and>
           s_se r = Some (sd / sqrt (real (s_n r))) \<and>
           s_ci_lower r = Some (m - 196 / 100 * (sd / sqrt (real (s_n r)))) \<and>
           s_ci_upper r = Some (m + 196 / 100 * (sd / sqrt (real (s_n r)))))) \<and>
      (s_n r \<le> 1 \<longrightarrow>
        s_sd r = None \<and> s_se r = None \<and> s_ci_lower r = None \<and> s_ci_upper r = None))"
proof (intro conjI ballI)
  show "sorted (map s_x (summarize_combined_tracks rows))"
    by (simp add: summarize_combined_tracks_def summarize_group_def Let_def comp_def)
  show "distinct (map s_x (summarize_combined_tracks rows))"
    by (simp add: summarize_combined_tracks_def summarize_group_def Let_def comp_def)
  show "set (map s_x (summarize_combined_tracks rows)) = fst ` set rows"
    by (simp add: summarize_combined_tracks_def summarize_group_def Let_def comp_def)
next
  fix r
  assume "r \<in> set (summarize_combined_tracks rows)"
  then obtain k where r: "r = summarize_group rows k"
    by (auto simp: summarize_combined_tracks_def)
  define vs where "vs = group_values k rows"
  have k: "s_x r = k"
    by (simp add: r summarize_group_def Let_def)
  have vs: "map the (filter (\<lambda>d. d \<noteq> None) (map snd (filter (\<lambda>row. fst row = s_x r) rows))) = vs"
    by (simp add: k vs_def group_values_alt)
  have n: "s_n r = length vs"
    by (simp add: r summarize_group_def Let_def vs_def)
  show "s_n r = length (map the (filter (\<lambda>d. d \<noteq> None)
                         (map snd (filter (\<lambda>row. fst row = s_x r) rows))))"
    unfolding vs by (rule n)
  show "1 < s_n r \<longrightarrow>
        (\<exists>m sd. s_mean r = Some m \<and> s_sd r = Some sd \<and>
           m * real (s_n r) =
             sum_list (map the (filter (\<lambda>d. d \<noteq> None)
                         (map snd (filter (\<lambda>row. fst row = s_x r) rows)))) \<and>
           0 \<le> sd \<and>
           sd\<^sup>2 * real (s_n r - 1) =
             sum_list (map (\<lambda>v. (v - m)\<^sup>2) (map the (filter (\<lambda>d. d \<noteq> None)
                         (map snd (filter (\<lambda>row. fst row = s_x r) rows))))) \<and>
           s_se r = Some (sd / sqrt (real (s_n r))) \<and>
           s_ci_lower r = Some (m - 196 / 100 * (sd / sqrt (real (s_n r)))) \<and>
           s_ci_upper r = Some (m + 196 / 100 * (sd / sqrt (real (s_n r)))))"
    unfolding vs
  proof
    assume "1 < s_n r"
    then have l: "1 < length vs"
      by (simp add: n)
    define m where "m = sum_list vs / real (length vs)"
    define q where "q = sum_list (map (\<lambda>v. (m - v)\<^sup>2) vs) / real (length vs - 1)"
    have q0: "0 \<le> q"
      unfolding q_def by (intro divide_nonneg_nonneg sum_list_nonneg) auto
    have sq: "sum_list (map (\<lambda>v. (v - m)\<^sup>2) vs) = sum_list (map (\<lambda>v. (m - v)\<^sup>2) vs)"
      by (simp add: power2_commute)
    have "s_mean r = Some m"
      using l by (auto simp: r summarize_group_def Let_def vs_def [symmetric] agg_mean_def m_def)
    moreover have "s_sd r = Some (sqrt q)"
      using l by (simp add: r summarize_group_def Let_def vs_def [symmetric] agg_std_def m_def q_def)
    moreover have "m * real (length vs) = sum_list vs"
      using l by (simp add: m_def)
    moreover have "0 \<le> sqrt q"
      using q0 by simp
    moreover have "(sqrt q)\<^sup>2 * real (length vs - 1) = sum_list (map (\<lambda>v. (v - m)\<^sup>2) vs)"
      using q0 l by (simp add: sq q_def)
    moreover have "s_se r = Some (sqrt q / sqrt (real (length vs)))"
      using l by (simp add: r summarize_group_def Let_def vs_def [symmetric] agg_std_def m_def q_def)
    moreover have "s_ci_lower r = Some (m - 196 / 100 * (sqrt q / sqrt (real (length vs))))"
      using l by (auto simp: r summarize_group_def Let_def vs_def [symmetric] agg_std_def agg_mean_def
          m_def q_def)
    moreover have "s_ci_upper r = Some (m + 196 / 100 * (sqrt q / sqrt (real (length vs))))"
      using l by (auto simp: r summarize_group_def Let_def vs_def [symmetric] agg_std_def agg_mean_def
          m_def q_def)
    ultimately show "\<exists>m sd. s_mean r = Some m \<and> s_sd r = Some sd \<and>
           m * real (s_n r) = sum_list vs \<and> 0 \<le> sd \<and>
           sd\<^sup>2 * real (s_n r - 1) = sum_list (map (\<lambda>v. (v - m)\<^sup>2) vs) \<and>
           s_se r = Some (sd / sqrt (real (s_n r))) \<and>
           s_ci_lower r = Some (m - 196 / 100 * (sd / sqrt (real (s_n r)))) \<and>
           s_ci_upper r = Some (m + 196 / 100 * (sd / sqrt (real (s_n r))))"
      unfolding n by blast
  qed
  show "s_n r \<le> 1 \<longrightarrow>
        s_sd r = None \<and> s_se r = None \<and> s_ci_lower r = None \<and> s_ci_upper r = None"
    by (auto simp: r summarize_group_def Let_def agg_std_def split: option.splits)
qed

section \<open>Properties of the boundary detectors\<close>






subsection \<open>The detectors and the aligner on the example frames\<close>




lemma ex_align:
  "align_diff_by_minimum
     example_paired 4
   = Inr example_aligned"
  by code_simp



lemma length_rolling_mean: "length (rolling_mean a w) = length a"
  by (simp add: rolling_mean_def)















theorem align_diff_by_minimum_aligns_witness:
  "t_diff example_paired \<noteq> [] \<and> length (t_start example_paired) = length (t_diff example_paired) \<and> (1 :: int) \<le> 4 \<and>
   align_diff_by_minimum example_paired 4 = Inr example_aligned \<and>
   (\<exists>imin imax. imin < 6 \<and> imax < 6 \<and>
      t_start example_aligned = (if t_start example_paired ! imin > t_start example_paired ! imax then rev (t_start example_paired)
                      else t_start example_paired) \<and>
      t_x example_aligned ! imin = 0)"
proof -
  have a: "t_diff example_paired \<noteq> []"
    by (simp add: example_paired_def)
  have b: "length (t_start example_paired) = length (t_diff example_paired)"
    by (simp add: example_paired_def)
  have c: "(1 :: int) \<le> 4"
    by simp
  from align_diff_by_minimum_aligns [OF a b c] obtain df' imin imax where
    r: "align_diff_by_minimum example_paired 4 = Inr df'" and
    i: "imin < length (t_diff example_paired)" "imax < length (t_diff example_paired)" and
    s: "t_start df' = (if t_start example_paired ! imin > t_start example_paired ! imax then rev (t_start example_paired)
                       else t_start example_paired)" and
    x: "t_x df' ! imin = 0"
    by blast
  have df': "df' = example_aligned"
    using r ex_align by simp
  have i6: "imin < 6" "imax < 6"
    using i by (simp_all add: example_paired_def)
  have "\<exists>imin imax. imin < 6 \<and> imax < 6 \<and>
      t_start example_aligned = (if t_start example_paired ! imin > t_start example_paired ! imax then rev (t_start example_paired)
                      else t_start example_paired) \<and>
      t_x example_aligned ! imin = 0"
    using i6 s x unfolding df' by blast
  then show ?thesis
    using a b c ex_align by blast
qed

theorem summarize_combined_tracks_stats_witness:
  "map s_x (summarize_combined_tracks example_rows) = [0, 5, 7] \<and>
   map s_n (summarize_combined_tracks example_rows) = [2, 1, 0] \<and>
   map s_sd (tl (summarize_combined_tracks example_rows)) = [None, None] \<and>
   map s_se (tl (summarize_combined_tracks example_rows)) = [None, None] \<and>
   map s_ci_lower (tl (summarize_combined_tracks example_rows)) = [None, None] \<and>
   map s_ci_upper (tl (summarize_combined_tracks example_rows)) = [None, None] \<and>
   (\<exists>m sd. s_mean (hd (summarize_combined_tracks example_rows)) = Some m \<and>
           s_sd (hd (summarize_combined_tracks example_rows)) = Some sd \<and>
           m * 2 = 4 \<and> 0 \<le> sd \<and> sd\<^sup>2 = 2 \<and>
           s_se (hd (summarize_combined_tracks example_rows)) = Some (sd / sqrt 2) \<and>
           s_ci_lower (hd (summarize_combined_tracks example_rows)) = Some (m - 196 / 100 * (sd / sqrt 2)) \<and>
           s_ci_upper (hd (summarize_combined_tracks example_rows)) = Some (m + 196 / 100 * (sd / sqrt 2)))"
proof -
  let ?S = "summarize_combined_tracks example_rows"
  have k: "sort (remdups (map fst example_rows)) = [0, 5, 7]"
    by (simp add: example_rows_def)
  have S: "?S = [summarize_group example_rows 0, summarize_group example_rows 5, summarize_group example_rows 7]"
    unfolding summarize_combined_tracks_def k by simp
  have g0: "group_values 0 example_rows = [1, 3]" and g5: "group_values 5 example_rows = [2]"
    and g7: "group_values 7 example_rows = []"
    by (simp_all add: group_values_def List.map_filter_simps example_rows_def)
  have x: "map s_x ?S = [0, 5, 7]"
    by (simp add: S summarize_group_def Let_def)
  have n: "map s_n ?S = [2, 1, 0]"
    by (simp add: S summarize_group_def Let_def g0 g5 g7)
  have v0: "map the (filter (\<lambda>d. d \<noteq> None) (map snd (filter (\<lambda>row. fst row = 0) example_rows))) = [1, 3]"
    by (simp add: example_rows_def)
  note t = summarize_combined_tracks_stats [of "example_rows"]
  from t have B: "\<forall>r \<in> set ?S.
      (1 < s_n r \<longrightarrow>
        (\<exists>m sd. s_mean r = Some m \<and> s_sd r = Some sd \<and>
           m * real (s_n r) =
             sum_list (map the (filter (\<lambda>d. d \<noteq> None)
                         (map snd (filter (\<lambda>row. fst row = s_x r) example_rows)))) \<and>
           0 \<le> sd \<and>
           sd\<^sup>2 * real (s_n r - 1) =
             sum_list (map (\<lambda>v. (v - m)\<^sup>2) (map the (filter (\<lambda>d. d \<noteq> None)
                         (map snd (filter (\<lambda>row. fst row = s_x r) example_rows))))) \<and>
           s_se r = Some (sd / sqrt (real (s_n r))) \<and>
           s_ci_lower r = Some (m - 196 / 100 * (sd / sqrt (real (s_n r)))) \<and>
           s_ci_upper r = Some (m + 196 / 100 * (sd / sqrt (real (s_n r)))))) \<and>
      (s_n r \<le> 1 \<longrightarrow>
        s_sd r = None \<and> s_se r = None \<and> s_ci_lower r = None \<and> s_ci_upper r = None)"
    by blast
  have h: "hd ?S = summarize_group example_rows 0" and tl: "tl ?S = [summarize_group example_rows 5, summarize_group example_rows 7]"
    by (simp_all add: S)
  have n0: "s_n (summarize_group example_rows 0) = 2" and x0: "s_x (summarize_group example_rows 0) = 0"
    and n5: "s_n (summarize_group example_rows 5) = 1" and n7: "s_n (summarize_group example_rows 7) = 0"
    by (simp_all add: summarize_group_def Let_def g0 g5 g7)
  have r5: "s_sd (summarize_group example_rows 5) = None \<and> s_se (summarize_group example_rows 5) = None \<and>
            s_ci_lower (summarize_group example_rows 5) = None \<and> s_ci_upper (summarize_group example_rows 5) = None"
    using B [rule_format, of "summarize_group example_rows 5"] n5 by (simp add: S)
  have r7: "s_sd (summarize_group example_rows 7) = None \<and> s_se (summarize_group example_rows 7) = None \<and>
            s_ci_lower (summarize_group example_rows 7) = None \<and> s_ci_upper (summarize_group example_rows 7) = None"
    using B [rule_format, of "summarize_group example_rows 7"] n7 by (simp add: S)
  have "summarize_group example_rows 0 \<in> set ?S"
    by (simp add: S)
  from B [rule_format, OF this] obtain m sd where
    m: "s_mean (summarize_group example_rows 0) = Some m" "s_sd (summarize_group example_rows 0) = Some sd"
      "m * 2 = 4" "0 \<le> sd"
      "sd\<^sup>2 = sum_list (map (\<lambda>v. (v - m)\<^sup>2) [1, 3])"
      "s_se (summarize_group example_rows 0) = Some (sd / sqrt 2)"
      "s_ci_lower (summarize_group example_rows 0) = Some (m - 196 / 100 * (sd / sqrt 2))"
      "s_ci_upper (summarize_group example_rows 0) = Some (m + 196 / 100 * (sd / sqrt 2))"
    unfolding n0 x0 v0 by auto
  have "m = 2"
    using m(3) by simp
  then have "sd\<^sup>2 = 2"
    using m(5) by simp
  then have "\<exists>m sd. s_mean (hd ?S) = Some m \<and> s_sd (hd ?S) = Some sd \<and>
           m * 2 = 4 \<and> 0 \<le> sd \<and> sd\<^sup>2 = 2 \<and>
           s_se (hd ?S) = Some (sd / sqrt 2) \<and>
           s_ci_lower (hd ?S) = Some (m - 196 / 100 * (sd / sqrt 2)) \<and>
           s_ci_upper (hd ?S) = Some (m + 196 / 100 * (sd / sqrt 2))"
    unfolding h using m by blast
  then show ?thesis
    using x n r5 r7 unfolding tl by simp
qed

end
